theory Spec2Isabelle
  imports Main
begin

section \<open>Python strings\<close>

text \<open>
  A Python \<open>str\<close> is a sequence of Unicode code points and \<open>len\<close> counts code points,
  so a string is a list of natural numbers here. \<open>u\<close> turns an ASCII literal into such a
  string.
\<close>

type_synonym ustr = "nat list"

definition u :: "string \<Rightarrow> ustr" where
  "u s = map of_char s"

text \<open>\<open>str(n)\<close> for an integer: decimal digits, a minus sign for a negative number.\<close>

fun str_nat :: "nat \<Rightarrow> ustr" where
  "str_nat n = (if n < 10 then [48 + n] else str_nat (n div 10) @ [48 + n mod 10])"

declare str_nat.simps [simp del]

definition str_int :: "int \<Rightarrow> ustr" where
  "str_int i = (if i < 0 then 45 # str_nat (nat (- i)) else str_nat (nat i))"

text \<open>How an f-string renders an optional integer field: \<open>None\<close> prints as the word.\<close>

definition str_opt_int :: "int option \<Rightarrow> ustr" where
  "str_opt_int v = (case v of None \<Rightarrow> u ''None'' | Some i \<Rightarrow> str_int i)"

definition startswith :: "ustr \<Rightarrow> ustr \<Rightarrow> bool" where
  "startswith s p = (take (length p) s = p)"

text \<open>
  \<open>str.isspace\<close> on one code point: the characters \<open>str.strip()\<close> removes. All of them
  lie in the basic multilingual plane.
\<close>

definition isspace :: "nat \<Rightarrow> bool" where
  "isspace c = ((9 \<le> c \<and> c \<le> 13) \<or> (28 \<le> c \<and> c \<le> 32) \<or> c = 133 \<or> c = 160
     \<or> c = 5760 \<or> (8192 \<le> c \<and> c \<le> 8202) \<or> c = 8232 \<or> c = 8233 \<or> c = 8239
     \<or> c = 8287 \<or> c = 12288)"

definition strip :: "ustr \<Rightarrow> ustr" where
  "strip s = rev (dropWhile isspace (rev (dropWhile isspace s)))"

text \<open>
  \<open>s.replace(old, new)\<close>: every non-overlapping occurrence of \<open>old\<close>, scanning from the
  left. With an empty \<open>old\<close> Python puts \<open>new\<close> before every character and at the end.
\<close>

function replace :: "ustr \<Rightarrow> ustr \<Rightarrow> ustr \<Rightarrow> ustr" where
  "replace s old new =
     (if old = [] then new @ concat (map (\<lambda>c. c # new) s)
      else if s = [] then []
      else if take (length old) s = old then new @ replace (drop (length old) s) old new
      else hd s # replace (tl s) old new)"
  by pat_completeness auto
termination
  by (relation "measure (\<lambda>(s, old, new). length s)") auto

declare replace.simps [simp del]

text \<open>\<open>s.split(' ')\<close> with an explicit separator, and \<open>' '.join(parts)\<close>.\<close>

fun split_sp :: "ustr \<Rightarrow> ustr list" where
  "split_sp [] = [[]]"
| "split_sp (c # cs) =
     (if c = 32 then [] # split_sp cs
      else (case split_sp cs of p # ps \<Rightarrow> (c # p) # ps | [] \<Rightarrow> [[c]]))"

fun join_sp :: "ustr list \<Rightarrow> ustr" where
  "join_sp [] = []"
| "join_sp [p] = p"
| "join_sp (p # q # ps) = p @ 32 # join_sp (q # ps)"

section \<open>The regular expression of the button labels\<close>

text \<open>
  The fragment of Python's \<open>re\<close> that \<open>prepare_issue_view\<close> uses: literals, character
  classes, sequence, alternation, and \<open>+\<close> (greedy) and \<open>+?\<close> (lazy) over a character
  class. \<open>ends r s\<close> lists the remainders of \<open>s\<close> after each way of matching \<open>r\<close> at the
  start of \<open>s\<close>, in the order in which the backtracking engine tries them: the first
  alternative before the second, the longest run first for \<open>+\<close>, the shortest first
  for \<open>+?\<close>.
\<close>

datatype re = Lit nat | Cls "nat \<Rightarrow> bool" | Seq re re | Alt re re
  | Plus "nat \<Rightarrow> bool" | PlusLazy "nat \<Rightarrow> bool"

fun runs :: "(nat \<Rightarrow> bool) \<Rightarrow> ustr \<Rightarrow> ustr list" where
  "runs p [] = []"
| "runs p (x # xs) = (if p x then xs # runs p xs else [])"

fun ends :: "re \<Rightarrow> ustr \<Rightarrow> ustr list" where
  "ends (Lit c) s = (case s of [] \<Rightarrow> [] | x # xs \<Rightarrow> if x = c then [xs] else [])"
| "ends (Cls p) s = (case s of [] \<Rightarrow> [] | x # xs \<Rightarrow> if p x then [xs] else [])"
| "ends (Seq a b) s = concat (map (ends b) (ends a s))"
| "ends (Alt a b) s = ends a s @ ends b s"
| "ends (Plus p) s = rev (runs p s)"
| "ends (PlusLazy p) s = runs p s"

text \<open>
  \<open>re.search(r, s)\<close>: the leftmost position where \<open>r\<close> matches, and there the first match
  the engine finds; the result is \<open>group(0)\<close>, the matched text.
\<close>

fun re_search :: "re \<Rightarrow> ustr \<Rightarrow> ustr option" where
  "re_search r [] = (case ends r [] of rest # _ \<Rightarrow> Some [] | [] \<Rightarrow> None)"
| "re_search r (x # xs) =
     (case ends r (x # xs) of
        rest # _ \<Rightarrow> Some (take (length (x # xs) - length rest) (x # xs))
      | [] \<Rightarrow> re_search r xs)"

text \<open>
  The character classes of the pattern. \<open>\d\<close> on a \<open>str\<close> pattern is every Unicode
  decimal digit: the ASCII digits and the non-ASCII ones, whose table \<open>nd\<close> is a
  parameter. \<open>.\<close> is every character but the newline.
\<close>

definition digit :: "(nat \<Rightarrow> bool) \<Rightarrow> nat \<Rightarrow> bool" where
  "digit nd c = ((48 \<le> c \<and> c \<le> 57) \<or> (128 \<le> c \<and> nd c))"

definition dot :: "nat \<Rightarrow> bool" where
  "dot c = (c \<noteq> 10)"

definition supplementary :: "nat \<Rightarrow> bool" where
  "supplementary c = (65536 \<le> c \<and> c \<le> 1114111)"

text \<open>
  \<^verbatim>\<open><:\d+>|<:.+?:\d+>|<a:.+:\d+>|[\U00010000-\U0010ffff]\<close>
  with \<open><\<close> = 60, \<open>:\<close> = 58, \<open>>\<close> = 62, \<open>a\<close> = 97.
\<close>

definition emoji_re :: "(nat \<Rightarrow> bool) \<Rightarrow> re" where
  "emoji_re nd =
     Alt (Seq (Lit 60) (Seq (Lit 58) (Seq (Plus (digit nd)) (Lit 62))))
    (Alt (Seq (Lit 60) (Seq (Lit 58) (Seq (PlusLazy dot)
            (Seq (Lit 58) (Seq (Plus (digit nd)) (Lit 62))))))
    (Alt (Seq (Lit 60) (Seq (Lit 97) (Seq (Lit 58) (Seq (Plus dot)
            (Seq (Lit 58) (Seq (Plus (digit nd)) (Lit 62)))))))
         (Cls supplementary)))"

section \<open>The data model\<close>

text \<open>
  An \<open>Issue\<close> document. The field \<open>image\<close> of the source is a reference into the
  database's binary storage; it is \<open>image_file\<close> here, the key of the stored blob, and
  \<open>issue.image.read()\<close> looks the blob up. An optional field that is not set reads as
  \<open>None\<close>.
\<close>

record blob =
  data :: "nat list"
  content_type :: "ustr option"

type_synonym gridfs = "nat \<rightharpoonup> blob"

record issue =
  name :: ustr
  content :: ustr
  added_date :: "int option"
  added_by_id :: int
  added_by_tag :: ustr
  image_file :: "nat option"
  button_links :: "(ustr \<times> ustr) list"
  color :: "int option"
  panic_string :: "ustr option"
  message_id :: "int option"

definition image_read :: "gridfs \<Rightarrow> issue \<Rightarrow> nat list option" where
  "image_read fs i = (case image_file i of None \<Rightarrow> None | Some g \<Rightarrow> map_option data (fs g))"

definition image_content_type :: "gridfs \<Rightarrow> issue \<Rightarrow> ustr option" where
  "image_content_type fs i =
     (case image_file i of None \<Rightarrow> None
      | Some g \<Rightarrow> (case fs g of None \<Rightarrow> None | Some b \<Rightarrow> content_type b))"

text \<open>
  What the code uses and this repository does not define: \<open>hash_color(name).value\<close>, the
  table of the non-ASCII decimal digits, and the parser \<open>Color.from_str\<close> (\<open>None\<close> where
  it raises \<open>ValueError\<close>).
\<close>

record lib =
  hash_color :: "ustr \<Rightarrow> int"
  unicode_Nd :: "nat \<Rightarrow> bool"
  from_str :: "ustr \<Rightarrow> int option"

text \<open>The exceptions that the modelled code raises or meets.\<close>

datatype error = BadArgument ustr | TypeError | ValueError | AttributeError | NotFound
  | HTTPException | ClientError | GridFSError

section \<open>The presenter\<close>

record embed =
  title :: ustr
  description :: ustr
  timestamp :: "int option"
  colour :: "int option"
  image_url :: "ustr option"
  footer_text :: "ustr option"

record button =
  label :: ustr
  url :: ustr
  emoji :: "ustr option"

text \<open>An attached file: its bytes and its file name.\<close>

record attachment =
  bytes :: "nat list"
  filename :: ustr

text \<open>
  \<open>Color(v).value\<close>: the constructor of the client library takes an integer and raises
  \<open>TypeError\<close> for anything else, \<open>None\<close> included.
\<close>

definition Color_value :: "int option \<Rightarrow> error + int" where
  "Color_value v = (case v of None \<Rightarrow> Inl TypeError | Some c \<Rightarrow> Inr c)"

text \<open>
  \<open>prepare_issue_embed\<close>. In \<open>a or b\<close> Python takes \<open>b\<close> when \<open>a\<close> is 0.
\<close>

definition prepare_issue_embed :: "lib \<Rightarrow> gridfs \<Rightarrow> issue \<Rightarrow> error + embed" where
  "prepare_issue_embed L fs i =
     (case Color_value (color i) of
        Inl e \<Rightarrow> Inl e
      | Inr c \<Rightarrow>
          Inr \<lparr>title = name i,
               description = content i,
               timestamp = added_date i,
               colour = Some (if c \<noteq> 0 then c else hash_color L (name i)),
               image_url =
                 (if image_read fs i \<noteq> None
                  then Some (if image_content_type fs i = Some (u ''image/gif'')
                             then u ''attachment://image.gif''
                             else u ''attachment://image.png'')
                  else None),
               footer_text = Some (u ''Submitted by '' @ added_by_tag i)\<rparr>)"

text \<open>
  The loop body of \<open>prepare_issue_view\<close> for one \<open>(label, link)\<close> pair, and the view: the
  list of its buttons, or \<open>None\<close> for \<open>MISSING\<close>.
\<close>

definition issue_button :: "lib \<Rightarrow> ustr \<times> ustr \<Rightarrow> button" where
  "issue_button L p =
     (case re_search (emoji_re (unicode_Nd L)) (fst p) of
        Some m \<Rightarrow>
          \<lparr>label = strip (replace (fst p) (strip m) []), url = snd p, emoji = Some (strip m)\<rparr>
      | None \<Rightarrow> \<lparr>label = fst p, url = snd p, emoji = None\<rparr>)"

definition prepare_issue_view :: "lib \<Rightarrow> issue \<Rightarrow> button list option" where
  "prepare_issue_view L i =
     (if button_links i = [] then None else Some (map (issue_button L) (button_links i)))"

text \<open>
  The file that goes with an issue when it is posted: \<open>image.gif\<close> for a GIF, \<open>image.png\<close>
  otherwise, nothing when the issue has no image.
\<close>

definition issue_file :: "gridfs \<Rightarrow> issue \<Rightarrow> attachment option" where
  "issue_file fs i =
     (case image_read fs i of
        None \<Rightarrow> None
      | Some b \<Rightarrow>
          Some \<lparr>bytes = b,
                filename = (if image_content_type fs i = Some (u ''image/gif'')
                            then u ''image.gif'' else u ''image.png'')\<rparr>)"

section \<open>The platform and the database\<close>

text \<open>
  A message of the common-issues channel, as the chat platform holds it. A component of a
  message is a link button or something else (a select menu, say), which the import
  skips.
\<close>

datatype component = ButtonC button | OtherC

record message =
  msg_id :: int
  author_bot :: bool
  embeds :: "embed list"
  components :: "component list list"
  attachments :: "attachment list"

text \<open>
  The state that the commands read and write: the channel (oldest message first) and the
  next message id of the platform; the guild document of the database with its issues
  and the ids of the index pages; the binary storage of the database; the pages of the
  web that an image download reads; and the replies that stay with the invoker. The
  platform may fail any request: each kind of request has a script, read one entry per
  request, where \<open>True\<close> makes the request raise; an empty script means no failure.
\<close>

record world =
  guild_id :: int
  channel_id :: int
  channel :: "message list"
  next_id :: int
  issues :: "issue list"
  issues_list_msg :: "int list option"
  files :: gridfs
  next_file :: nat
  web :: "ustr \<rightharpoonup> nat list"
  followups :: "ustr list"
  fetch_faults :: "bool list"
  delete_faults :: "bool list"
  send_faults :: "bool list"
  edit_faults :: "bool list"
  http_faults :: "bool list"

text \<open>
  A step of a command: it returns a value or raises, and leaves a state in both cases.
\<close>

type_synonym 'a io = "world \<Rightarrow> (error + 'a) \<times> world"

definition fails :: "bool list \<Rightarrow> bool" where
  "fails script = (case script of [] \<Rightarrow> False | f # _ \<Rightarrow> f)"

text \<open>\<open>channel.fetch_message(id)\<close>, \<open>msg.delete()\<close>, \<open>channel.send(...)\<close>, \<open>msg.edit(...)\<close>.\<close>

definition fetch_message :: "int option \<Rightarrow> message io" where
  "fetch_message mid w =
     (let w' = w\<lparr>fetch_faults := tl (fetch_faults w)\<rparr> in
      if fails (fetch_faults w) then (Inl HTTPException, w')
      else (case mid of
              None \<Rightarrow> (Inl HTTPException, w')
            | Some m \<Rightarrow>
                (case find (\<lambda>x. msg_id x = m) (channel w) of
                   None \<Rightarrow> (Inl NotFound, w')
                 | Some x \<Rightarrow> (Inr x, w'))))"

definition delete_message :: "message \<Rightarrow> unit io" where
  "delete_message m w =
     (let w' = w\<lparr>delete_faults := tl (delete_faults w)\<rparr> in
      if fails (delete_faults w) then (Inl HTTPException, w')
      else if find (\<lambda>x. msg_id x = msg_id m) (channel w) = None then (Inl NotFound, w')
      else (Inr (), w'\<lparr>channel := filter (\<lambda>x. msg_id x \<noteq> msg_id m) (channel w)\<rparr>))"

definition view_components :: "button list option \<Rightarrow> component list list" where
  "view_components v = (case v of None \<Rightarrow> [] | Some bs \<Rightarrow> [map ButtonC bs])"

definition send :: "attachment option \<Rightarrow> embed \<Rightarrow> button list option \<Rightarrow> int io" where
  "send f e v w =
     (let w' = w\<lparr>send_faults := tl (send_faults w)\<rparr> in
      if fails (send_faults w) then (Inl HTTPException, w')
      else (Inr (next_id w),
            w'\<lparr>channel := channel w @ [\<lparr>msg_id = next_id w, author_bot = True, embeds = [e],
                     components = view_components v,
                     attachments = (case f of None \<Rightarrow> [] | Some a \<Rightarrow> [a])\<rparr>],
               next_id := next_id w + 1\<rparr>))"

definition edit_message :: "message \<Rightarrow> attachment option \<Rightarrow> embed \<Rightarrow> button list option
    \<Rightarrow> unit io" where
  "edit_message m f e v w =
     (let w' = w\<lparr>edit_faults := tl (edit_faults w)\<rparr> in
      if fails (edit_faults w) then (Inl HTTPException, w')
      else if find (\<lambda>x. msg_id x = msg_id m) (channel w) = None then (Inl NotFound, w')
      else (Inr (),
            w'\<lparr>channel := map (\<lambda>x. if msg_id x = msg_id m
                     then x\<lparr>embeds := [e],
                            components := (case v of None \<Rightarrow> components x
                                           | Some bs \<Rightarrow> [map ButtonC bs]),
                            attachments := (case f of None \<Rightarrow> [] | Some a \<Rightarrow> [a])\<rparr>
                     else x) (channel w)\<rparr>))"

text \<open>
  \<open>try: msg = await channel.fetch_message(id); await msg.delete() except: pass\<close>:
  whatever the two requests raise is dropped, the state they leave is kept.
\<close>

definition try_delete :: "int option \<Rightarrow> world \<Rightarrow> world" where
  "try_delete mid w =
     (case fetch_message mid w of
        (Inl e, w') \<Rightarrow> w'
      | (Inr m, w') \<Rightarrow> snd (delete_message m w'))"

text \<open>
  The binary storage: \<open>issue.image.delete()\<close> removes the blob and clears the reference;
  \<open>put\<close> refuses a document that has a file already; \<open>replace\<close> is \<open>delete\<close> then \<open>put\<close>.
\<close>

definition image_delete :: "issue \<Rightarrow> world \<Rightarrow> issue \<times> world" where
  "image_delete i w =
     (case image_file i of
        None \<Rightarrow> (i, w)
      | Some g \<Rightarrow> (i\<lparr>image_file := None\<rparr>, w\<lparr>files := (files w)(g := None)\<rparr>))"

definition image_put :: "issue \<Rightarrow> nat list \<Rightarrow> ustr option \<Rightarrow> issue io" where
  "image_put i b ct w =
     (if image_file i \<noteq> None then (Inl GridFSError, w)
      else (Inr (i\<lparr>image_file := Some (next_file w)\<rparr>),
            w\<lparr>files := (files w)(next_file w \<mapsto> \<lparr>data = b, content_type = ct\<rparr>),
              next_file := Suc (next_file w)\<rparr>))"

definition image_replace :: "issue \<Rightarrow> nat list \<Rightarrow> ustr option \<Rightarrow> issue io" where
  "image_replace i b ct w = (case image_delete i w of (i', w') \<Rightarrow> image_put i' b ct w')"

text \<open>
  Modelled from the spec: the issue store \<open>guild_service\<close> (\<open>utils/services\<close> is not among
  the sources). \<open>get(name)\<close> gives the issue or nothing, \<open>add(Issue)\<close> appends to the
  persisted order, \<open>edit(Issue)\<close> replaces by name, \<open>remove(name)\<close> deletes by name, and
  the list of the index page ids is replaced as a whole.
\<close>

definition get_issue :: "world \<Rightarrow> ustr \<Rightarrow> issue option" where
  "get_issue w nm = find (\<lambda>i. name i = nm) (issues w)"

definition add_issue :: "issue \<Rightarrow> world \<Rightarrow> world" where
  "add_issue i w = w\<lparr>issues := issues w @ [i]\<rparr>"

definition edit_issue :: "issue \<Rightarrow> world \<Rightarrow> world" where
  "edit_issue i w = w\<lparr>issues := map (\<lambda>j. if name j = name i then i else j) (issues w)\<rparr>"

definition remove_issue :: "ustr \<Rightarrow> world \<Rightarrow> world" where
  "remove_issue nm w = w\<lparr>issues := filter (\<lambda>j. name j \<noteq> nm) (issues w)\<rparr>"

definition edit_issues_list :: "int list \<Rightarrow> world \<Rightarrow> world" where
  "edit_issues_list ids w = w\<lparr>issues_list_msg := Some ids\<rparr>"

section \<open>Sequencing\<close>

text \<open>
  \<open>then_do m f\<close> runs \<open>m\<close> and, unless it raised, \<open>f\<close> on its result; an exception ends the
  command with the state reached so far.
\<close>

definition then_do :: "'a io \<Rightarrow> ('a \<Rightarrow> 'b io) \<Rightarrow> 'b io" where
  "then_do m f w = (case m w of (Inl e, w') \<Rightarrow> (Inl e, w') | (Inr a, w') \<Rightarrow> f a w')"

definition ret :: "'a \<Rightarrow> 'a io" where
  "ret a w = (Inr a, w)"

definition raise :: "error \<Rightarrow> 'a io" where
  "raise e w = (Inl e, w)"

definition upd :: "(world \<Rightarrow> world) \<Rightarrow> unit io" where
  "upd f w = (Inr (), f w)"

definition embed_io :: "lib \<Rightarrow> issue \<Rightarrow> embed io" where
  "embed_io L i w = (prepare_issue_embed L (files w) i, w)"

section \<open>The index of the common issues\<close>

text \<open>
  \<open>refresh_common_issues\<close>. One line of the table of contents:
  \<^verbatim>\<open>f"{i+1}. [{issue.name}](https://discord.com/channels/{guild.id}/{channel.id}/{issue.message_id})\n"\<close>
\<close>

definition index_line :: "int \<Rightarrow> int \<Rightarrow> nat \<Rightarrow> issue \<Rightarrow> ustr" where
  "index_line gid cid n i =
     str_int (int n + 1) @ u ''. ['' @ name i @ u ''](https://discord.com/channels/''
     @ str_int gid @ u ''/'' @ str_int cid @ u ''/'' @ str_opt_int (message_id i)
     @ u '')'' @ [10]"

definition page_embed :: "ustr \<Rightarrow> ustr \<Rightarrow> nat \<Rightarrow> embed" where
  "page_embed ttl desc page =
     \<lparr>title = ttl, description = desc, timestamp = None, colour = None, image_url = None,
      footer_text = Some (u ''Page '' @ str_int (int page))\<rparr>"

fun delete_old :: "int list \<Rightarrow> world \<Rightarrow> world" where
  "delete_old [] w = w"
| "delete_old (i # rest) w = delete_old rest (try_delete (Some i) w)"

text \<open>
  The loop over \<open>enumerate(issues)\<close>; its state is the title of the embed being filled,
  \<open>desc\<close>, \<open>page\<close> and \<open>ids\<close>. The line is appended first and the length tested after.
\<close>

fun index_loop :: "int \<Rightarrow> int \<Rightarrow> nat \<Rightarrow> issue list \<Rightarrow> ustr \<Rightarrow> ustr \<Rightarrow> nat \<Rightarrow> int list
    \<Rightarrow> (ustr \<times> ustr \<times> nat \<times> int list) io" where
  "index_loop gid cid n [] ttl desc page ids w = (Inr (ttl, desc, page, ids), w)"
| "index_loop gid cid n (i # rest) ttl desc page ids w =
     (if length (desc @ index_line gid cid n i) > 3072
      then (case send None (page_embed ttl (desc @ index_line gid cid n i) (page + 1)) None w of
              (Inl e, w') \<Rightarrow> (Inl e, w')
            | (Inr mid, w') \<Rightarrow> index_loop gid cid (Suc n) rest [] [] (page + 1) (ids @ [mid]) w')
      else index_loop gid cid (Suc n) rest ttl (desc @ index_line gid cid n i) page ids w)"

definition delete_old_pages :: "world \<Rightarrow> world" where
  "delete_old_pages w = (case issues_list_msg w of None \<Rightarrow> w | Some old \<Rightarrow> delete_old old w)"

definition refresh_common_issues :: "unit io" where
  "refresh_common_issues w =
     (let w1 = delete_old_pages w in
      case index_loop (guild_id w1) (channel_id w1) 0 (issues w1) (u ''Table of Contents'')
             [] 0 [] w1 of
        (Inl e, w2) \<Rightarrow> (Inl e, w2)
      | (Inr (ttl, desc, page, ids), w2) \<Rightarrow>
          if length desc > 0
          then (case send None (page_embed ttl desc (page + 1)) None w2 of
                  (Inl e, w3) \<Rightarrow> (Inl e, w3)
                | (Inr mid, w3) \<Rightarrow> (Inr (), edit_issues_list (ids @ [mid]) w3))
          else (Inr (), edit_issues_list ids w2))"

section \<open>Reindex and import\<close>

text \<open>\<open>do_reindex\<close>: the loop over the issues read at its start, then the index.\<close>

fun reindex_loop :: "lib \<Rightarrow> issue list \<Rightarrow> unit io" where
  "reindex_loop L [] w = (Inr (), w)"
| "reindex_loop L (i # rest) w =
     (let w1 = try_delete (message_id i) w in
      case prepare_issue_embed L (files w1) i of
        Inl e \<Rightarrow> (Inl e, w1)
      | Inr em \<Rightarrow>
          (case send (issue_file (files w1) i) em (prepare_issue_view L i) w1 of
             (Inl e, w2) \<Rightarrow> (Inl e, w2)
           | (Inr mid, w2) \<Rightarrow> reindex_loop L rest (edit_issue (i\<lparr>message_id := Some mid\<rparr>) w2)))"

definition do_reindex :: "lib \<Rightarrow> unit io" where
  "do_reindex L w =
     then_do (reindex_loop L (issues w))
       (\<lambda>_. then_do refresh_common_issues
          (\<lambda>_. upd (\<lambda>v. v\<lparr>followups := followups v @ [u ''Reindexed!'']\<rparr>))) w"

text \<open>
  \<open>get_discord_file_from_url\<close>: the request itself may raise. For an answer of status
  200 the code hands a \<open>NamedTemporaryFile\<close> to \<open>discord.File\<close>, which takes a path or an
  \<open>io.IOBase\<close> object and raises \<open>TypeError\<close> for this wrapper; for another status the
  result is \<open>None\<close>.
\<close>

definition get_discord_file_from_url :: "ustr \<Rightarrow> nat list option io" where
  "get_discord_file_from_url link w =
     (let w' = w\<lparr>http_faults := tl (http_faults w)\<rparr> in
      if fails (http_faults w) then (Inl ClientError, w')
      else (case web w link of None \<Rightarrow> (Inr None, w') | Some b \<Rightarrow> (Inl TypeError, w')))"

definition component_links :: "component list list \<Rightarrow> (ustr \<times> ustr) list" where
  "component_links rows =
     concat (map (\<lambda>row. concat (map (\<lambda>c. case c of ButtonC b \<Rightarrow> [(label b, url b)]
                                              | OtherC \<Rightarrow> []) row)) rows)"

text \<open>
  The body of the branch of \<open>do_import\<close> for a message whose footer starts with
  \<open>Submitted by\<close>. Modelled from the spec: the assignment of the downloaded file to the
  \<open>image\<close> field of the document (\<open>model/issues.py\<close> is not among the sources) stores it as
  the issue's binary blob.
\<close>

definition import_issue :: "lib \<Rightarrow> message \<Rightarrow> embed \<Rightarrow> ustr \<Rightarrow> unit io" where
  "import_issue L m e ft =
     (let iss = \<lparr>name = title e, content = description e, added_date = timestamp e,
                 added_by_id = 0, added_by_tag = join_sp (drop 2 (split_sp ft)),
                 image_file = None, button_links = [], color = None, panic_string = None,
                 message_id = None\<rparr> in
      then_do (case image_url e of
                 None \<Rightarrow> ret None
               | Some link \<Rightarrow> if link = [] then ret None else get_discord_file_from_url link)
        (\<lambda>img. then_do (case img of None \<Rightarrow> ret iss | Some b \<Rightarrow> image_put iss b None)
        (\<lambda>iss1 w.
           let riss = get_issue w (name iss1) in
           (case colour e of
              None \<Rightarrow> raise AttributeError
            | Some c \<Rightarrow>
                (let iss2 = iss1\<lparr>button_links := component_links (components m),
                                 color := Some c\<rparr> in
                 then_do (embed_io L iss2)
                   (\<lambda>em. then_do (send (map_option (\<lambda>b. \<lparr>bytes = b, filename = u ''file.png''\<rparr>) img)
                                    em (prepare_issue_view L iss2))
                   (\<lambda>mid. then_do (upd (if riss \<noteq> None
                                         then edit_issue (iss2\<lparr>message_id := Some mid\<rparr>)
                                         else add_issue (iss2\<lparr>message_id := Some mid\<rparr>)))
                   (\<lambda>_. delete_message m))))) w)))"

text \<open>The body of the loop of \<open>do_import\<close> for one message of the history.\<close>

definition import_message :: "lib \<Rightarrow> message \<Rightarrow> unit io" where
  "import_message L m =
     (if \<not> author_bot m then ret ()
      else (case embeds m of
              [] \<Rightarrow> ret ()
            | e # _ \<Rightarrow>
                (case footer_text e of
                   None \<Rightarrow> ret ()
                 | Some ft \<Rightarrow>
                     if ft = [] then ret ()
                     else if \<not> startswith ft (u ''Submitted by'') then ret ()
                     else if startswith ft (u ''Submitted by'') then import_issue L m e ft
                     else if startswith (title e) (u ''Table of'') then delete_message m
                     else ret ())))"

fun import_loop :: "lib \<Rightarrow> message list \<Rightarrow> unit io" where
  "import_loop L [] w = (Inr (), w)"
| "import_loop L (m # rest) w =
     (case import_message L m w of
        (Inl e, w') \<Rightarrow> (Inl e, w')
      | (Inr _, w') \<Rightarrow> import_loop L rest w')"

text \<open>
  \<open>do_import\<close>. The history is the messages that the channel holds when the scan starts,
  oldest first.
\<close>

definition do_import :: "lib \<Rightarrow> unit io" where
  "do_import L w =
     then_do (import_loop L (channel w))
       (\<lambda>_. then_do refresh_common_issues
          (\<lambda>_. upd (\<lambda>v. v\<lparr>followups :=
                   followups v @ [u ''Imported all embeds as common issues!'']\<rparr>))) w"

section \<open>The commands add and edit\<close>

text \<open>
  An uploaded attachment. The modal dialogue is the user's part of a command: for \<open>add\<close>
  it gives the new issue or nothing, for \<open>edit\<close> it takes the issue and gives the edited
  one, or nothing when the user cancels.
\<close>

record upload =
  ctype :: "ustr option"
  size_b :: nat
  payload :: "nat list"

definition image_types :: "ustr option list" where
  "image_types = [Some (u ''image/png''), Some (u ''image/jpeg''), Some (u ''image/gif''),
     Some (u ''image/webp'')]"

definition color_given :: "ustr option \<Rightarrow> bool" where
  "color_given c = (case c of None \<Rightarrow> False | Some cs \<Rightarrow> cs \<noteq> [])"

definition parse_color :: "lib \<Rightarrow> ustr \<Rightarrow> ustr option \<Rightarrow> int io" where
  "parse_color L nm c =
     (case c of
        None \<Rightarrow> ret (hash_color L nm)
      | Some cs \<Rightarrow>
          if cs = [] then ret (hash_color L nm)
          else (case from_str L cs of None \<Rightarrow> raise ValueError | Some v \<Rightarrow> ret v))"

text \<open>
  \<open>prepare_issue_embed(issue)\<close> after the line
  \<open>issue.color = Color.from_str(color) if color else hash_color(name).value\<close>: with a
  colour argument the issue object holds a \<open>Colour\<close> object, not its integer, and
  \<open>Color(issue.color)\<close> raises \<open>TypeError\<close>; the stored document holds the integer.
\<close>

definition embed_after_color :: "lib \<Rightarrow> ustr option \<Rightarrow> issue \<Rightarrow> embed io" where
  "embed_after_color L c i = (if color_given c then raise TypeError else embed_io L i)"

definition or_empty :: "ustr option \<Rightarrow> ustr" where
  "or_empty p = (case p of None \<Rightarrow> [] | Some s \<Rightarrow> s)"

text \<open>
  \<open>add\<close> from the line that stores the uploaded image on, for the issue that the modal
  returned.
\<close>

definition add_finish :: "lib \<Rightarrow> ustr \<Rightarrow> upload option \<Rightarrow> ustr option \<Rightarrow> ustr option
    \<Rightarrow> issue \<Rightarrow> unit io" where
  "add_finish L nm img panic_keyword color_s issue =
     then_do (case img of None \<Rightarrow> ret issue
              | Some a \<Rightarrow> image_put issue (payload a) (ctype a))
       (\<lambda>i1. then_do (embed_io L i1)
       (\<lambda>em v. then_do (send (issue_file (files v) i1) em (prepare_issue_view L i1))
       (\<lambda>mid. then_do (parse_color L nm color_s)
       (\<lambda>c. then_do (upd (add_issue (i1\<lparr>message_id := Some mid,
                                          panic_string := Some (or_empty panic_keyword),
                                          color := Some c\<rparr>)))
       (\<lambda>_. then_do refresh_common_issues
       (\<lambda>_. then_do (embed_after_color L color_s
                        (i1\<lparr>message_id := Some mid,
                            panic_string := Some (or_empty panic_keyword),
                            color := Some c\<rparr>))
       (\<lambda>_. ret ()))))) v))"

definition add :: "lib \<Rightarrow> ustr \<Rightarrow> upload option \<Rightarrow> ustr option \<Rightarrow> ustr option
    \<Rightarrow> issue option \<Rightarrow> unit io" where
  "add L nm img panic_keyword color_s modal w =
     (if get_issue w nm \<noteq> None
      then (Inl (BadArgument (u ''Issue with that name already exists.'')), w)
      else if (case img of None \<Rightarrow> False | Some a \<Rightarrow> ctype a \<notin> set image_types)
      then (Inl (BadArgument (u ''Attached file was not an image!'')), w)
      else if (case img of None \<Rightarrow> False | Some a \<Rightarrow> size_b a > 8000000)
      then (Inl (BadArgument (u ''That image is too big!'')), w)
      else (case modal of
              None \<Rightarrow> (Inr (), w)
            | Some issue \<Rightarrow> add_finish L nm img panic_keyword color_s issue w))"

text \<open>
  \<open>edit\<close> from the modal on, for the issue as the image step left it. When the user
  cancels, the code calls \<open>send_error(ctx, ..., ephemeral=True)\<close>; \<open>send_error\<close> has no
  parameter \<open>ephemeral\<close>, so the call raises \<open>TypeError\<close>. Otherwise the record is stored
  and the posted message fetched and edited.
\<close>

definition edit_finish :: "lib \<Rightarrow> ustr \<Rightarrow> ustr option \<Rightarrow> ustr option
    \<Rightarrow> (issue \<Rightarrow> issue option) \<Rightarrow> issue \<Rightarrow> unit io" where
  "edit_finish L nm panic_keyword color_s modal i1 =
     (case modal i1 of
        None \<Rightarrow> raise TypeError
      | Some i2 \<Rightarrow>
          then_do (parse_color L nm color_s)
            (\<lambda>c. then_do (upd (edit_issue (i2\<lparr>panic_string := Some (or_empty panic_keyword),
                                               color := Some c\<rparr>)))
            (\<lambda>_. then_do (fetch_message (message_id i2))
            (\<lambda>m. then_do (embed_after_color L color_s
                             (i2\<lparr>panic_string := Some (or_empty panic_keyword),
                                 color := Some c\<rparr>))
            (\<lambda>em v. then_do (edit_message m
                                (issue_file (files v)
                                   (i2\<lparr>panic_string := Some (or_empty panic_keyword),
                                       color := Some c\<rparr>))
                                em
                                (prepare_issue_view L
                                   (i2\<lparr>panic_string := Some (or_empty panic_keyword),
                                       color := Some c\<rparr>)))
            (\<lambda>_. then_do (embed_after_color L color_s
                             (i2\<lparr>panic_string := Some (or_empty panic_keyword),
                                 color := Some c\<rparr>))
            (\<lambda>_. ret ())) v)))))"

text \<open>
  \<open>edit\<close>. The image step has a size test and no test of the content type; without an
  attachment it deletes the stored image.
\<close>

definition edit :: "lib \<Rightarrow> ustr \<Rightarrow> upload option \<Rightarrow> ustr option \<Rightarrow> ustr option
    \<Rightarrow> (issue \<Rightarrow> issue option) \<Rightarrow> unit io" where
  "edit L nm img panic_keyword color_s modal w =
     (case get_issue w nm of
        None \<Rightarrow> (Inl (BadArgument (u ''That issue does not exist.'')), w)
      | Some issue \<Rightarrow>
          if (case img of None \<Rightarrow> False | Some a \<Rightarrow> size_b a > 8000000)
          then (Inl (BadArgument (u ''That image is too big!'')), w)
          else then_do (case img of
                          Some a \<Rightarrow> image_replace issue (payload a) (ctype a)
                        | None \<Rightarrow> (\<lambda>v. (Inr (fst (image_delete issue v)),
                                           snd (image_delete issue v))))
                 (edit_finish L nm panic_keyword color_s modal) w)"

text \<open>
  For stating what the index holds: the rendered lines of a list of issues, numbered
  from \<open>n\<close>.
\<close>

fun index_lines :: "int \<Rightarrow> int \<Rightarrow> nat \<Rightarrow> issue list \<Rightarrow> ustr list" where
  "index_lines gid cid n [] = []"
| "index_lines gid cid n (i # rest) = index_line gid cid n i # index_lines gid cid (Suc n) rest"

text \<open>
  For stating what the search finds: the set of strings a pattern denotes, and \<open>t\<close>
  occurring in \<open>s\<close> at offset \<open>n\<close>.
\<close>

fun lang :: "re \<Rightarrow> ustr set" where
  "lang (Lit c) = {[c]}"
| "lang (Cls p) = {[c] | c. p c}"
| "lang (Seq a b) = {v @ w | v w. v \<in> lang a \<and> w \<in> lang b}"
| "lang (Alt a b) = lang a \<union> lang b"
| "lang (Plus p) = {w. w \<noteq> [] \<and> (\<forall>c\<in>set w. p c)}"
| "lang (PlusLazy p) = {w. w \<noteq> [] \<and> (\<forall>c\<in>set w. p c)}"

definition occurs_at :: "ustr \<Rightarrow> nat \<Rightarrow> ustr \<Rightarrow> bool" where
  "occurs_at t n s = (n + length t \<le> length s \<and> take (length t) (drop n s) = t)"

text \<open>
  The emoji-like tokens in the specification's words: a custom emoji reference
  \<^verbatim>\<open><:id>\<close>, \<^verbatim>\<open><:name:id>\<close> or \<^verbatim>\<open><a:name:id>\<close> (the id is decimal digits, the name
  has no newline), or one character of the supplementary planes.
\<close>

definition emoji_token :: "(nat \<Rightarrow> bool) \<Rightarrow> ustr \<Rightarrow> bool" where
  "emoji_token nd t \<longleftrightarrow>
     (\<exists>ident. ident \<noteq> [] \<and> (\<forall>c\<in>set ident. digit nd c) \<and> t = u ''<:'' @ ident @ u ''>'')
   \<or> (\<exists>nm ident. nm \<noteq> [] \<and> (\<forall>c\<in>set nm. c \<noteq> 10) \<and> ident \<noteq> [] \<and> (\<forall>c\<in>set ident. digit nd c)
         \<and> t = u ''<:'' @ nm @ u '':'' @ ident @ u ''>'')
   \<or> (\<exists>nm ident. nm \<noteq> [] \<and> (\<forall>c\<in>set nm. c \<noteq> 10) \<and> ident \<noteq> [] \<and> (\<forall>c\<in>set ident. digit nd c)
         \<and> t = u ''<a:'' @ nm @ u '':'' @ ident @ u ''>'')
   \<or> (\<exists>c. 65536 \<le> c \<and> c \<le> 1114111 \<and> t = [c])"

section \<open>Example values\<close>

text \<open>A library whose hash colour is 7 for every name, and an issue with one button.\<close>

definition lib0 :: lib where
  "lib0 = \<lparr>hash_color = (\<lambda>_. 7), unicode_Nd = (\<lambda>_. False), from_str = (\<lambda>_. None)\<rparr>"

definition issue0 :: issue where
  "issue0 = \<lparr>name = u ''wifi'', content = u ''Restart the router.'', added_date = Some 1,
     added_by_id = 42, added_by_tag = u ''ann#1'', image_file = None,
     button_links = [([128293, 32] @ u ''Click here'', u ''https://example.org'')],
     color = Some 16711680, panic_string = None, message_id = Some 5\<rparr>"

text \<open>
  An empty guild, a guild that holds one issue with a stored PNG, and an upload that is
  not an image.
\<close>

definition world0 :: world where
  "world0 = \<lparr>guild_id = 1, channel_id = 2, channel = [], next_id = 100, issues = [],
     issues_list_msg = None, files = Map.empty, next_file = 0, web = Map.empty,
     followups = [], fetch_faults = [], delete_faults = [], send_faults = [],
     edit_faults = [], http_faults = []\<rparr>"

definition issue1 :: issue where
  "issue1 = issue0\<lparr>image_file := Some 0\<rparr>"

definition world1 :: world where
  "world1 = world0\<lparr>issues := [issue1],
     files := [0 \<mapsto> \<lparr>data = [137, 80, 78, 71], content_type = Some (u ''image/png'')\<rparr>],
     next_file := 1\<rparr>"

definition pdf :: upload where
  "pdf = \<lparr>ctype = Some (u ''application/pdf''), size_b = 4, payload = [37, 80, 68, 70]\<rparr>"


text \<open>A legacy index page, and a guild whose channel holds only that page.\<close>

definition toc_msg :: message where
  "toc_msg = \<lparr>msg_id = 7, author_bot = True,
     embeds = [page_embed (u ''Table of Contents'') (u ''1. [wifi](https://example.org)'' @ [10]) 1],
     components = [], attachments = []\<rparr>"

definition world_toc :: world where
  "world_toc = world0\<lparr>channel := [toc_msg]\<rparr>"

text \<open>
  A guild of 500 issues whose names have 10 characters each: \<open>issue00000\<close> to
  \<open>issue00499\<close>.
\<close>

definition issue_no :: "nat \<Rightarrow> issue" where
  "issue_no k = issue0\<lparr>name := u ''issue'' @ map (\<lambda>d. 48 + (k div d) mod 10) [10000, 1000, 100, 10, 1],
     message_id := Some (int k)\<rparr>"

definition world500 :: world where
  "world500 = world0\<lparr>issues := map issue_no [0..<500]\<rparr>"

text \<open>
  A guild of two issues whose old messages are \<open>0\<close> and \<open>1\<close> and whose old index page
  is \<open>50\<close>; the same guild where the
  message \<open>1\<close> is in the channel, the next fetch fails and the next deletion fails; and
  the same guild where the next send fails.
\<close>

definition world2 :: world where
  "world2 = world0\<lparr>issues := [issue_no 0, issue_no 1], issues_list_msg := Some [50]\<rparr>"



text \<open>A message of the old bot whose embed has no colour.\<close>

definition legacy_msg :: message where
  "legacy_msg = \<lparr>msg_id = 3, author_bot = True,
     embeds = [\<lparr>title = u ''wifi'', description = u ''Restart the router.'', timestamp = None,
                colour = None, image_url = None, footer_text = Some (u ''Submitted by ann'')\<rparr>],
     components = [], attachments = []\<rparr>"


section \<open>The search finds the leftmost token\<close>

lemma set_runs: "set (runs p s) = {rest. \<exists>w. w \<noteq> [] \<and> (\<forall>c\<in>set w. p c) \<and> s = w @ rest}"
proof (induction s)
  case Nil
  then show ?case by simp
next
  case (Cons x xs)
  show ?case
  proof (cases "p x")
    case False
    then show ?thesis by (auto simp: neq_Nil_conv Cons_eq_append_conv)
  next
    case True
    have "{rest. \<exists>w. w \<noteq> [] \<and> (\<forall>c\<in>set w. p c) \<and> x # xs = w @ rest}
        = insert xs {rest. \<exists>w. w \<noteq> [] \<and> (\<forall>c\<in>set w. p c) \<and> xs = w @ rest}" (is "?A = insert xs ?B")
    proof (intro set_eqI iffI)
      fix r assume "r \<in> ?A"
      then obtain w where w: "w \<noteq> []" "\<forall>c\<in>set w. p c" "x # xs = w @ r" by blast
      then obtain w' where w': "w = x # w'" by (cases w) auto
      show "r \<in> insert xs ?B"
      proof (cases "w' = []")
        case True with w w' show ?thesis by simp
      next
        case False with w w' show ?thesis by auto
      qed
    next
      fix r assume "r \<in> insert xs ?B"
      then consider "r = xs" | "r \<in> ?B" by blast
      then show "r \<in> ?A"
      proof cases
        case 1
        have "[x] \<noteq> [] \<and> (\<forall>c\<in>set [x]. p c) \<and> x # xs = [x] @ r" using True 1 by simp
        then show ?thesis by blast
      next
        case 2
        then obtain w where w: "w \<noteq> []" "\<forall>c\<in>set w. p c" "xs = w @ r" by blast
        then have "x # w \<noteq> [] \<and> (\<forall>c\<in>set (x # w). p c) \<and> x # xs = (x # w) @ r" using True by simp
        then show ?thesis by blast
      qed
    qed
    with True Cons show ?thesis by simp
  qed
qed

lemma set_ends: "set (ends r s) = {rest. \<exists>w\<in>lang r. s = w @ rest}"
proof (induction r arbitrary: s)
  case (Lit c)
  then show ?case by (cases s) auto
next
  case (Cls p)
  then show ?case by (cases s) auto
next
  case (Seq a b)
  show ?case
  proof (intro set_eqI iffI)
    fix x assume "x \<in> set (ends (Seq a b) s)"
    then obtain m where m: "m \<in> set (ends a s)" "x \<in> set (ends b m)" by auto
    from m(1) Seq.IH(1) obtain v where v: "v \<in> lang a" "s = v @ m" by blast
    from m(2) Seq.IH(2) obtain w where w: "w \<in> lang b" "m = w @ x" by blast
    have "v @ w \<in> lang (Seq a b)" using v w by auto
    moreover have "s = (v @ w) @ x" using v w by simp
    ultimately show "x \<in> {rest. \<exists>w\<in>lang (Seq a b). s = w @ rest}" by blast
  next
    fix x assume "x \<in> {rest. \<exists>w\<in>lang (Seq a b). s = w @ rest}"
    then obtain v w where vw: "v \<in> lang a" "w \<in> lang b" "s = (v @ w) @ x" by auto
    then have "w @ x \<in> set (ends a s)" using Seq.IH(1) by auto
    moreover have "x \<in> set (ends b (w @ x))" using Seq.IH(2) vw by auto
    ultimately show "x \<in> set (ends (Seq a b) s)" by auto
  qed
next
  case (Alt a b)
  then show ?case by auto
next
  case (Plus p)
  then show ?case by (simp add: set_runs)
next
  case (PlusLazy p)
  then show ?case by (simp add: set_runs)
qed


lemma occurs_at_0: "occurs_at t 0 s \<longleftrightarrow> (\<exists>rest. s = t @ rest)"
  unfolding occurs_at_def
  by (metis append_eq_conv_conj append_take_drop_id drop0 length_append le_add1 add_0)

lemma occurs_at_Suc: "occurs_at t (Suc n) (x # xs) = occurs_at t n xs"
  by (simp add: occurs_at_def)

lemma ends_Nil_iff: "ends r s = [] \<longleftrightarrow> (\<forall>t\<in>lang r. \<not> occurs_at t 0 s)"
proof -
  have "ends r s = [] \<longleftrightarrow> set (ends r s) = {}" by simp
  also have "\<dots> \<longleftrightarrow> (\<forall>t\<in>lang r. \<not> occurs_at t 0 s)"
    unfolding set_ends occurs_at_0 by blast
  finally show ?thesis .
qed

lemma re_search_None:
  "re_search r s = None \<longleftrightarrow> (\<forall>t\<in>lang r. \<forall>n. \<not> occurs_at t n s)"
proof (induction s)
  case Nil
  have "\<And>t n. occurs_at t n [] \<Longrightarrow> occurs_at t 0 []" by (simp add: occurs_at_def)
  then have "(\<forall>t\<in>lang r. \<forall>n. \<not> occurs_at t n []) \<longleftrightarrow> (\<forall>t\<in>lang r. \<not> occurs_at t 0 [])" by blast
  then show ?case using ends_Nil_iff[of r "[]"] by (cases "ends r []") auto
next
  case (Cons x xs)
  have *: "(\<forall>t\<in>lang r. \<forall>n. \<not> occurs_at t n (x # xs)) \<longleftrightarrow>
        (\<forall>t\<in>lang r. \<not> occurs_at t 0 (x # xs)) \<and> (\<forall>t\<in>lang r. \<forall>n. \<not> occurs_at t n xs)"
    (is "?L \<longleftrightarrow> ?A \<and> ?B")
  proof
    assume L: ?L
    then have ?A by blast
    moreover have ?B using L occurs_at_Suc by blast
    ultimately show "?A \<and> ?B" ..
  next
    assume AB: "?A \<and> ?B"
    show ?L
    proof (intro ballI allI)
      fix t n assume t: "t \<in> lang r"
      show "\<not> occurs_at t n (x # xs)"
        using AB t by (cases n) (auto simp: occurs_at_Suc)
    qed
  qed
  show ?case
  proof (cases "ends r (x # xs)")
    case Nil
    then show ?thesis using Cons.IH ends_Nil_iff[of r "x # xs"] * by simp
  next
    case (Cons rest rs)
    then have "ends r (x # xs) \<noteq> []" by simp
    then have "\<not> ?A" using ends_Nil_iff[of r "x # xs"] by blast
    then show ?thesis using Cons * by simp
  qed
qed

lemma re_search_Some:
  assumes "re_search r s = Some m"
  shows "m \<in> lang r \<and> (\<exists>n. occurs_at m n s \<and> (\<forall>t\<in>lang r. \<forall>k. occurs_at t k s \<longrightarrow> n \<le> k))"
  using assms
proof (induction s)
  case Nil
  then obtain rest rs where e: "ends r [] = rest # rs" and m: "m = []"
    by (auto split: list.splits)
  then have "rest \<in> set (ends r [])" by simp
  then obtain w where "w \<in> lang r" "[] = w @ rest" unfolding set_ends by blast
  then have "[] \<in> lang r" by simp
  moreover have "occurs_at [] 0 []" by (simp add: occurs_at_def)
  ultimately show ?case using m by blast
next
  case (Cons x xs)
  show ?case
  proof (cases "ends r (x # xs)")
    case Nil
    then have rs: "re_search r xs = Some m" using Cons.prems by simp
    from Cons.IH[OF rs] obtain n where n: "m \<in> lang r" "occurs_at m n xs"
      "\<forall>t\<in>lang r. \<forall>k. occurs_at t k xs \<longrightarrow> n \<le> k" by blast
    have no0: "\<forall>t\<in>lang r. \<not> occurs_at t 0 (x # xs)" using Nil ends_Nil_iff by blast
    have "occurs_at m (Suc n) (x # xs)" using n(2) by (simp add: occurs_at_Suc)
    moreover have "\<forall>t\<in>lang r. \<forall>k. occurs_at t k (x # xs) \<longrightarrow> Suc n \<le> k"
    proof (intro ballI allI impI)
      fix t k assume t: "t \<in> lang r" and o: "occurs_at t k (x # xs)"
      show "Suc n \<le> k"
      proof (cases k)
        case 0 then show ?thesis using no0 t o by blast
      next
        case (Suc k') then show ?thesis using n(3) t o by (simp add: occurs_at_Suc)
      qed
    qed
    ultimately show ?thesis using n(1) by blast
  next
    case (Cons rest rs)
    then have m: "m = take (length (x # xs) - length rest) (x # xs)" using Cons.prems by simp
    have "rest \<in> set (ends r (x # xs))" using Cons by simp
    then obtain w where w: "w \<in> lang r" "x # xs = w @ rest" unfolding set_ends by blast
    have "m = w" unfolding m w(2) by simp
    moreover have "occurs_at w 0 (x # xs)" using w(2) occurs_at_0 by blast
    ultimately show ?thesis using w(1) by blast
  qed
qed


lemma in_lang_Lit_Seq: "t \<in> lang (Seq (Lit c) r) \<longleftrightarrow> (\<exists>w. t = c # w \<and> w \<in> lang r)"
  by auto

lemma in_lang_Plus_Seq:
  "t \<in> lang (Seq (Plus p) r) \<longleftrightarrow> (\<exists>v w. t = v @ w \<and> v \<noteq> [] \<and> (\<forall>c\<in>set v. p c) \<and> w \<in> lang r)"
  by auto

lemma in_lang_PlusLazy_Seq:
  "t \<in> lang (Seq (PlusLazy p) r) \<longleftrightarrow> (\<exists>v w. t = v @ w \<and> v \<noteq> [] \<and> (\<forall>c\<in>set v. p c) \<and> w \<in> lang r)"
  by auto

lemma in_lang_Lit: "t \<in> lang (Lit c) \<longleftrightarrow> t = [c]"
  by simp

lemma in_lang_Cls: "t \<in> lang (Cls p) \<longleftrightarrow> (\<exists>c. p c \<and> t = [c])"
  by auto

lemma in_lang_Alt: "t \<in> lang (Alt a b) \<longleftrightarrow> t \<in> lang a \<or> t \<in> lang b"
  by simp

lemmas in_lang = in_lang_Lit_Seq in_lang_Plus_Seq in_lang_PlusLazy_Seq in_lang_Lit in_lang_Cls
  in_lang_Alt

lemma lang_emoji_re: "t \<in> lang (emoji_re nd) \<longleftrightarrow> emoji_token nd t"
proof -
  have u1: "u ''<:'' = [60, 58]" and u2: "u ''>'' = [62]" and u3: "u '':'' = [58]"
    and u4: "u ''<a:'' = [60, 97, 58]" by (simp_all add: u_def)
  have a1: "(\<exists>w. t = 60 # w \<and> (\<exists>wa. w = 58 # wa \<and> (\<exists>v w. wa = v @ w \<and> v \<noteq> []
        \<and> (\<forall>c\<in>set v. digit nd c) \<and> w = [62])))
      \<longleftrightarrow> (\<exists>ident. ident \<noteq> [] \<and> (\<forall>c\<in>set ident. digit nd c) \<and> t = [60, 58] @ ident @ [62])"
    by auto
  have tail: "\<exists>v w. ident @ [62] = v @ w \<and> v \<noteq> [] \<and> (\<forall>c\<in>set v. digit nd c) \<and> w = [62]"
    if "ident \<noteq> []" "\<forall>c\<in>set ident. digit nd c" for ident
    using that by auto
  have a2: "(\<exists>w. t = 60 # w \<and> (\<exists>wa. w = 58 # wa \<and> (\<exists>v w. wa = v @ w \<and> v \<noteq> []
        \<and> (\<forall>c\<in>set v. dot c) \<and> (\<exists>wb. w = 58 # wb \<and> (\<exists>v w. wb = v @ w \<and> v \<noteq> []
        \<and> (\<forall>c\<in>set v. digit nd c) \<and> w = [62])))))
      \<longleftrightarrow> (\<exists>nm ident. nm \<noteq> [] \<and> (\<forall>c\<in>set nm. c \<noteq> 10) \<and> ident \<noteq> []
        \<and> (\<forall>c\<in>set ident. digit nd c) \<and> t = [60, 58] @ nm @ [58] @ ident @ [62])"
    (is "?L \<longleftrightarrow> ?R")
  proof
    assume ?L then show ?R unfolding dot_def by auto
  next
    assume ?R
    then obtain nm ident where h: "nm \<noteq> []" "\<forall>c\<in>set nm. c \<noteq> 10" "ident \<noteq> []"
      "\<forall>c\<in>set ident. digit nd c" "t = [60, 58] @ nm @ [58] @ ident @ [62]" by blast
    have "\<exists>wb. 58 # ident @ [62] = 58 # wb \<and> (\<exists>v w. wb = v @ w \<and> v \<noteq> []
        \<and> (\<forall>c\<in>set v. digit nd c) \<and> w = [62])"
      using tail[OF h(3,4)] by simp
    then have "\<exists>v w. nm @ 58 # ident @ [62] = v @ w \<and> v \<noteq> [] \<and> (\<forall>c\<in>set v. dot c)
        \<and> (\<exists>wb. w = 58 # wb \<and> (\<exists>v w. wb = v @ w \<and> v \<noteq> []
        \<and> (\<forall>c\<in>set v. digit nd c) \<and> w = [62]))"
      using h(1,2) unfolding dot_def by blast
    then show ?L using h(5) by simp
  qed
  have a3: "(\<exists>w. t = 60 # w \<and> (\<exists>wz. w = 97 # wz \<and> (\<exists>wa. wz = 58 # wa \<and> (\<exists>v w. wa = v @ w \<and> v \<noteq> []
        \<and> (\<forall>c\<in>set v. dot c) \<and> (\<exists>wb. w = 58 # wb \<and> (\<exists>v w. wb = v @ w \<and> v \<noteq> []
        \<and> (\<forall>c\<in>set v. digit nd c) \<and> w = [62]))))))
      \<longleftrightarrow> (\<exists>nm ident. nm \<noteq> [] \<and> (\<forall>c\<in>set nm. c \<noteq> 10) \<and> ident \<noteq> []
        \<and> (\<forall>c\<in>set ident. digit nd c) \<and> t = [60, 97, 58] @ nm @ [58] @ ident @ [62])"
    (is "?L \<longleftrightarrow> ?R")
  proof
    assume ?L then show ?R unfolding dot_def by auto
  next
    assume ?R
    then obtain nm ident where h: "nm \<noteq> []" "\<forall>c\<in>set nm. c \<noteq> 10" "ident \<noteq> []"
      "\<forall>c\<in>set ident. digit nd c" "t = [60, 97, 58] @ nm @ [58] @ ident @ [62]" by blast
    have "\<exists>wb. 58 # ident @ [62] = 58 # wb \<and> (\<exists>v w. wb = v @ w \<and> v \<noteq> []
        \<and> (\<forall>c\<in>set v. digit nd c) \<and> w = [62])"
      using tail[OF h(3,4)] by simp
    then have "\<exists>v w. nm @ 58 # ident @ [62] = v @ w \<and> v \<noteq> [] \<and> (\<forall>c\<in>set v. dot c)
        \<and> (\<exists>wb. w = 58 # wb \<and> (\<exists>v w. wb = v @ w \<and> v \<noteq> []
        \<and> (\<forall>c\<in>set v. digit nd c) \<and> w = [62]))"
      using h(1,2) unfolding dot_def by blast
    then show ?L using h(5) by simp
  qed
  have a4: "(\<exists>c. supplementary c \<and> t = [c]) \<longleftrightarrow> (\<exists>c. 65536 \<le> c \<and> c \<le> 1114111 \<and> t = [c])"
    unfolding supplementary_def by auto
  show ?thesis
    unfolding emoji_re_def emoji_token_def in_lang u1 u2 u3 u4 a1 a2 a3 a4 ..
qed

lemma strip_id:
  assumes "t \<noteq> []" "\<not> isspace (hd t)" "\<not> isspace (last t)"
  shows "strip t = t"
proof -
  have 1: "dropWhile isspace t = t" using assms(1,2) by (cases t) auto
  obtain a l where al: "rev t = a # l" using assms(1) by (cases "rev t") auto
  have "a = last t" using al assms(1) by (metis hd_rev list.sel(1))
  then have "dropWhile isspace (a # l) = a # l" using assms(3) by simp
  then have 2: "dropWhile isspace (rev t) = rev t" unfolding al .
  show ?thesis unfolding strip_def 1 2 by simp
qed

lemma emoji_token_ends:
  assumes "emoji_token nd t"
  shows "t \<noteq> [] \<and> \<not> isspace (hd t) \<and> \<not> isspace (last t)"
proof -
  have u1: "u ''<:'' = [60, 58]" and u2: "u ''>'' = [62]" and u3: "u '':'' = [58]"
    and u4: "u ''<a:'' = [60, 97, 58]" by (simp_all add: u_def)
  have s60: "\<not> isspace 60" and s62: "\<not> isspace 62" by (simp_all add: isspace_def)
  have sup: "\<And>c. 65536 \<le> c \<Longrightarrow> \<not> isspace c" by (simp add: isspace_def)
  from assms show ?thesis
    unfolding emoji_token_def u1 u2 u3 u4
    by (elim disjE exE conjE) (simp_all add: s60 s62 sup)
qed

lemma emoji_token_strip: "emoji_token nd t \<Longrightarrow> strip t = t"
  using emoji_token_ends strip_id by blast

section \<open>Properties of the presenter\<close>

text \<open>
  Claim C6, amended. For every issue whose stored colour is an integer \<open>c\<close>, the rendered
  embed's colour is \<open>c\<close> when \<open>c\<close> is not 0, and the colour derived from hashing the
  issue's name when \<open>c\<close> is 0: the code tests the stored value with \<open>or\<close>, so the
  colour 0 counts as no colour.
\<close>

theorem prepare_issue_embed_colour:
  assumes "color i = Some c"
  shows "\<exists>e. prepare_issue_embed L fs i = Inr e
           \<and> colour e = Some (if c \<noteq> 0 then c else hash_color L (name i))"
  using assms by (simp add: prepare_issue_embed_def Color_value_def)

theorem prepare_issue_embed_colour_witness:
  "color issue0 = Some 16711680
   \<and> (\<exists>e. prepare_issue_embed lib0 Map.empty issue0 = Inr e \<and> colour e = Some 16711680)"
proof -
  have c: "color issue0 = Some 16711680" by (simp add: issue0_def)
  show ?thesis using c prepare_issue_embed_colour [OF c, of lib0 Map.empty] by simp
qed

text \<open>
  The claim as stated fails for an issue whose explicit colour is 0: the embed takes the
  hash colour, here 7.
\<close>

theorem prepare_issue_embed_colour_counterexample:
  "\<not> (\<forall>L fs i c. color i = Some c \<longrightarrow>
         (\<exists>e. prepare_issue_embed L fs i = Inr e \<and> colour e = Some c))"
proof
  assume a: "\<forall>L fs i c. color i = Some c \<longrightarrow>
         (\<exists>e. prepare_issue_embed L fs i = Inr e \<and> colour e = Some c)"
  have "color (issue0\<lparr>color := Some 0\<rparr>) = Some 0" by simp
  with a have "\<exists>e. prepare_issue_embed lib0 Map.empty (issue0\<lparr>color := Some 0\<rparr>) = Inr e
      \<and> colour e = Some 0" by blast
  then show False by (simp add: prepare_issue_embed_def Color_value_def lib0_def)
qed

lemma issue_button_found:
  assumes "emoji_token (unicode_Nd L) t0" "occurs_at t0 n0 lbl"
  shows "\<exists>t n. emoji_token (unicode_Nd L) t \<and> occurs_at t n lbl
           \<and> (\<forall>t' n'. emoji_token (unicode_Nd L) t' \<and> occurs_at t' n' lbl \<longrightarrow> n \<le> n')
           \<and> issue_button L (lbl, link)
               = \<lparr>label = strip (replace lbl t []), url = link, emoji = Some t\<rparr>"
proof -
  let ?r = "emoji_re (unicode_Nd L)"
  have "re_search ?r lbl \<noteq> None"
    using assms re_search_None[of ?r lbl] lang_emoji_re by blast
  then obtain m where m: "re_search ?r lbl = Some m" by blast
  from re_search_Some[OF m] obtain n where n: "m \<in> lang ?r" "occurs_at m n lbl"
    "\<forall>t\<in>lang ?r. \<forall>k. occurs_at t k lbl \<longrightarrow> n \<le> k" by blast
  have tok: "emoji_token (unicode_Nd L) m" using n(1) lang_emoji_re by blast
  have st: "strip m = m" using tok emoji_token_strip by blast
  have "issue_button L (lbl, link) = \<lparr>label = strip (replace lbl m []), url = link, emoji = Some m\<rparr>"
    by (simp add: issue_button_def m st)
  moreover have "\<forall>t' n'. emoji_token (unicode_Nd L) t' \<and> occurs_at t' n' lbl \<longrightarrow> n \<le> n'"
    using n(3) lang_emoji_re by blast
  ultimately show ?thesis using tok n(2) by blast
qed

lemma issue_button_none:
  assumes "\<forall>t n. emoji_token (unicode_Nd L) t \<longrightarrow> \<not> occurs_at t n lbl"
  shows "issue_button L (lbl, link) = \<lparr>label = lbl, url = link, emoji = None\<rparr>"
proof -
  have "re_search (emoji_re (unicode_Nd L)) lbl = None"
    using assms re_search_None[of "emoji_re (unicode_Nd L)" lbl] lang_emoji_re by blast
  then show ?thesis by (simp add: issue_button_def)
qed

lemma url_issue_button: "url (issue_button L (lbl, link)) = link"
  by (simp add: issue_button_def split: option.splits)

text \<open>
  Claim C4, amended. For every \<open>(label, url)\<close> pair of an issue, the button keeps the
  url, and the label is searched for an emoji-like token at any offset, not only at its
  start. If the label holds one, the leftmost token found becomes the button's icon, and
  the button's text is the label with every occurrence of that token removed and the
  surrounding white space trimmed. Otherwise the button has no icon and the label is
  unchanged.
\<close>

theorem prepare_issue_view_buttons:
  assumes "k < length (button_links i)" and "button_links i ! k = (lbl, link)"
  shows "\<exists>v. prepare_issue_view L i = Some v \<and> length v = length (button_links i)
     \<and> url (v ! k) = link
     \<and> (if \<exists>t n. emoji_token (unicode_Nd L) t \<and> occurs_at t n lbl
        then \<exists>t n. emoji_token (unicode_Nd L) t \<and> occurs_at t n lbl
               \<and> (\<forall>t' n'. emoji_token (unicode_Nd L) t' \<and> occurs_at t' n' lbl \<longrightarrow> n \<le> n')
               \<and> emoji (v ! k) = Some t \<and> label (v ! k) = strip (replace lbl t [])
        else emoji (v ! k) = None \<and> label (v ! k) = lbl)"
proof -
  let ?v = "map (issue_button L) (button_links i)"
  have ne: "button_links i \<noteq> []" using assms(1) by auto
  have v: "prepare_issue_view L i = Some ?v" by (simp add: prepare_issue_view_def ne)
  have k: "?v ! k = issue_button L (lbl, link)" using assms by simp
  have "if \<exists>t n. emoji_token (unicode_Nd L) t \<and> occurs_at t n lbl
        then \<exists>t n. emoji_token (unicode_Nd L) t \<and> occurs_at t n lbl
               \<and> (\<forall>t' n'. emoji_token (unicode_Nd L) t' \<and> occurs_at t' n' lbl \<longrightarrow> n \<le> n')
               \<and> emoji (?v ! k) = Some t \<and> label (?v ! k) = strip (replace lbl t [])
        else emoji (?v ! k) = None \<and> label (?v ! k) = lbl"
  proof (cases "\<exists>t n. emoji_token (unicode_Nd L) t \<and> occurs_at t n lbl")
    case True
    then obtain t0 n0 where "emoji_token (unicode_Nd L) t0" "occurs_at t0 n0 lbl" by blast
    from issue_button_found[OF this, of link] obtain t n where
      "emoji_token (unicode_Nd L) t" "occurs_at t n lbl"
      "\<forall>t' n'. emoji_token (unicode_Nd L) t' \<and> occurs_at t' n' lbl \<longrightarrow> n \<le> n'"
      "issue_button L (lbl, link) = \<lparr>label = strip (replace lbl t []), url = link, emoji = Some t\<rparr>"
      by blast
    then have "emoji_token (unicode_Nd L) t \<and> occurs_at t n lbl
        \<and> (\<forall>t' n'. emoji_token (unicode_Nd L) t' \<and> occurs_at t' n' lbl \<longrightarrow> n \<le> n')
        \<and> emoji (?v ! k) = Some t \<and> label (?v ! k) = strip (replace lbl t [])"
      unfolding k by simp
    then show ?thesis using True by (simp only: if_True) blast
  next
    case False
    then have "issue_button L (lbl, link) = \<lparr>label = lbl, url = link, emoji = None\<rparr>"
      using issue_button_none by blast
    then show ?thesis using False unfolding k by simp
  qed
  moreover have "url (?v ! k) = link" unfolding k by (rule url_issue_button)
  ultimately show ?thesis using v by simp
qed

text \<open>
  The example of the specification: the label of \<open>issue0\<close> is a fire emoji, a space and
  \<open>Click here\<close>; the button has the emoji as its icon and the text \<open>Click here\<close>.
\<close>

theorem prepare_issue_view_buttons_witness:
  "0 < length (button_links issue0)
   \<and> button_links issue0 ! 0 = ([128293, 32] @ u ''Click here'', u ''https://example.org'')
   \<and> prepare_issue_view lib0 issue0
       = Some [\<lparr>label = u ''Click here'', url = u ''https://example.org'', emoji = Some [128293]\<rparr>]
   \<and> (\<exists>v. prepare_issue_view lib0 issue0 = Some v \<and> length v = length (button_links issue0)
        \<and> url (v ! 0) = u ''https://example.org''
        \<and> (\<exists>t n. emoji_token (unicode_Nd lib0) t
              \<and> occurs_at t n ([128293, 32] @ u ''Click here'')
              \<and> emoji (v ! 0) = Some t
              \<and> label (v ! 0) = strip (replace ([128293, 32] @ u ''Click here'') t [])))"
proof -
  let ?lbl = "[128293, 32] @ u ''Click here''"
  have h1: "0 < length (button_links issue0)" by (simp add: issue0_def)
  have h2: "button_links issue0 ! 0 = (?lbl, u ''https://example.org'')"
    by (simp add: issue0_def)
  have tok: "emoji_token (unicode_Nd lib0) [128293]" by (simp add: emoji_token_def)
  have occ: "occurs_at [128293] 0 ?lbl" by (simp add: occurs_at_def)
  have has: "\<exists>t n. emoji_token (unicode_Nd lib0) t \<and> occurs_at t n ?lbl"
    using tok occ by blast
  have run: "prepare_issue_view lib0 issue0
       = Some [\<lparr>label = u ''Click here'', url = u ''https://example.org'', emoji = Some [128293]\<rparr>]"
    by (simp add: prepare_issue_view_def issue0_def issue_button_def emoji_re_def u_def
        supplementary_def strip_def isspace_def replace.simps)
  from prepare_issue_view_buttons [OF h1 h2, of lib0] has
  have "\<exists>v. prepare_issue_view lib0 issue0 = Some v \<and> length v = length (button_links issue0)
        \<and> url (v ! 0) = u ''https://example.org''
        \<and> (\<exists>t n. emoji_token (unicode_Nd lib0) t \<and> occurs_at t n ?lbl
              \<and> emoji (v ! 0) = Some t \<and> label (v ! 0) = strip (replace ?lbl t []))"
    by (simp only: if_True) blast
  then show ?thesis using h1 h2 run by blast
qed

text \<open>
  The claim as stated fails for the label \<open>Go\<close> followed by a fire emoji: no token matches
  at the start of the label, and the button still takes the emoji as its icon and loses
  it from its text.
\<close>

theorem prepare_issue_view_buttons_counterexample:
  "ends (emoji_re (unicode_Nd lib0)) (u ''Go '' @ [128293]) = []
   \<and> issue_button lib0 (u ''Go '' @ [128293], u ''https://example.org'')
       = \<lparr>label = u ''Go'', url = u ''https://example.org'', emoji = Some [128293]\<rparr>"
  by (simp add: issue_button_def emoji_re_def u_def supplementary_def strip_def isspace_def
      replace.simps)

section \<open>What the platform requests leave alone\<close>

lemma fetch_message_frame:
  "issues (snd (fetch_message mid w)) = issues w \<and> files (snd (fetch_message mid w)) = files w"
  by (simp add: fetch_message_def Let_def split: option.splits)

lemma delete_message_frame:
  "issues (snd (delete_message m w)) = issues w \<and> files (snd (delete_message m w)) = files w"
  by (simp add: delete_message_def Let_def)

lemma send_frame:
  "issues (snd (send f e v w)) = issues w \<and> files (snd (send f e v w)) = files w"
  by (simp add: send_def Let_def)

lemma edit_message_frame:
  "issues (snd (edit_message m f e v w)) = issues w
   \<and> files (snd (edit_message m f e v w)) = files w"
  by (simp add: edit_message_def Let_def)

lemma try_delete_frame:
  "issues (try_delete mid w) = issues w \<and> files (try_delete mid w) = files w"
proof (cases "fetch_message mid w")
  case (Pair r w')
  have fr: "issues w' = issues w \<and> files w' = files w"
    using fetch_message_frame[of mid w] Pair by simp
  show ?thesis
  proof (cases r)
    case (Inl e)
    then show ?thesis using fr Pair by (simp add: try_delete_def)
  next
    case (Inr m)
    then show ?thesis using fr Pair delete_message_frame[of m w'] by (simp add: try_delete_def)
  qed
qed

lemma delete_old_frame:
  "issues (delete_old ids w) = issues w \<and> files (delete_old ids w) = files w"
  by (induction ids arbitrary: w) (simp_all add: try_delete_frame)

lemma index_loop_frame:
  "issues (snd (index_loop gid cid n xs ttl desc page ids w)) = issues w
   \<and> files (snd (index_loop gid cid n xs ttl desc page ids w)) = files w"
proof (induction xs arbitrary: n ttl desc page ids w)
  case Nil
  then show ?case by simp
next
  case (Cons i rest)
  show ?case
  proof (cases "length (desc @ index_line gid cid n i) > 3072")
    case False
    then show ?thesis using Cons.IH by simp
  next
    case True
    let ?s = "send None (page_embed ttl (desc @ index_line gid cid n i) (page + 1)) None w"
    show ?thesis
    proof (cases ?s)
      case (Pair r w')
      have fr: "issues w' = issues w \<and> files w' = files w"
        using send_frame[of None "page_embed ttl (desc @ index_line gid cid n i) (page + 1)" None w] Pair
        by simp
      show ?thesis
        using True Pair fr Cons.IH by (cases r) simp_all
    qed
  qed
qed

lemma refresh_common_issues_frame:
  "issues (snd (refresh_common_issues w)) = issues w
   \<and> files (snd (refresh_common_issues w)) = files w"
proof -
  define w1 where "w1 = delete_old_pages w"
  have f1: "issues w1 = issues w \<and> files w1 = files w"
    unfolding w1_def delete_old_pages_def by (simp add: delete_old_frame split: option.splits)
  let ?l = "index_loop (guild_id w1) (channel_id w1) 0 (issues w1) (u ''Table of Contents'') [] 0 [] w1"
  obtain r w2 where l: "?l = (r, w2)" by (cases ?l)
  have f2: "issues w2 = issues w \<and> files w2 = files w"
    using index_loop_frame[of "guild_id w1" "channel_id w1" 0 "issues w1" "u ''Table of Contents''" "[]" 0 "[]" w1] l f1
    by simp
  show ?thesis
  proof (cases r)
    case (Inl e)
    then show ?thesis using l f2 by (simp add: refresh_common_issues_def w1_def[symmetric] Let_def)
  next
    case (Inr st)
    obtain ttl desc page ids where st: "st = (ttl, desc, page, ids)" by (cases st)
    let ?s = "send None (page_embed ttl desc (page + 1)) None w2"
    obtain r3 w3 where s: "?s = (r3, w3)" by (cases ?s)
    have f3: "issues w3 = issues w \<and> files w3 = files w"
      using send_frame[of None "page_embed ttl desc (page + 1)" None w2] s f2 by simp
    show ?thesis
      using l Inr st s f2 f3
      by (cases r3) (simp_all add: refresh_common_issues_def w1_def[symmetric] Let_def edit_issues_list_def)
  qed
qed

section \<open>The commands add and edit: properties\<close>

lemma then_do_inv:
  assumes "P w" and "\<And>v. P v \<Longrightarrow> P (snd (m v))" and "\<And>a v. P v \<Longrightarrow> P (snd (f a v))"
  shows "P (snd (then_do m f w))"
proof (cases "m w")
  case (Pair r w')
  have p: "P w'" using assms(1) assms(2)[of w] Pair by simp
  show ?thesis
  proof (cases r)
    case (Inl e) then show ?thesis using Pair p by (simp add: then_do_def)
  next
    case (Inr a) then show ?thesis using Pair assms(3)[OF p, of a] by (simp add: then_do_def)
  qed
qed

lemma parse_color_state: "snd (parse_color L nm c v) = v"
  by (simp add: parse_color_def ret_def raise_def split: option.splits)

lemma embed_io_state: "snd (embed_io L i v) = v"
  by (simp add: embed_io_def)

lemma embed_after_color_state: "snd (embed_after_color L c i v) = v"
  by (simp add: embed_after_color_def embed_io_def raise_def)

lemma then_do_step: "m w = (Inr a, w') \<Longrightarrow> then_do m f w = f a w'"
  by (simp add: then_do_def)

lemma then_do_raise: "m w = (Inl e, w') \<Longrightarrow> then_do m f w = (Inl e, w')"
  by (simp add: then_do_def)

lemma edit_finish_files:
  assumes "files v = F"
  shows "files (snd (edit_finish L nm pk cs modal i1 v)) = F"
proof (cases "modal i1")
  case None
  then show ?thesis using assms by (simp add: edit_finish_def raise_def)
next
  case (Some i2)
  show ?thesis
    unfolding edit_finish_def Some option.case
    apply (rule then_do_inv[where P="\<lambda>v. files v = F"])
      apply (rule assms)
     apply (simp add: parse_color_state)
    apply (rule then_do_inv[where P="\<lambda>v. files v = F"])
      apply assumption
     apply (simp add: upd_def edit_issue_def)
    apply (rule then_do_inv[where P="\<lambda>v. files v = F"])
      apply assumption
     apply (simp add: fetch_message_frame)
    apply (rule then_do_inv[where P="\<lambda>v. files v = F"])
      apply assumption
     apply (simp add: embed_after_color_state)
    apply (rule then_do_inv[where P="\<lambda>v. files v = F"])
      apply assumption
     apply (simp add: edit_message_frame)
    apply (rule then_do_inv[where P="\<lambda>v. files v = F"])
      apply assumption
     apply (simp add: embed_after_color_state)
    apply (simp add: ret_def)
    done
qed

text \<open>
  Claim C10. For every existing issue that has a stored image, the edit command invoked
  without an image attachment deletes the stored blob, whatever else the edit changes
  and however the command ends: afterwards the storage holds nothing under the blob's
  key, and the issue's image reads as absent.
\<close>

theorem edit_without_image_deletes_blob:
  assumes "get_issue w nm = Some i" and "image_file i = Some g"
  shows "files (snd (edit L nm None pk cs modal w)) g = None
         \<and> image_read (files (snd (edit L nm None pk cs modal w))) i = None"
proof -
  let ?w1 = "w\<lparr>files := (files w)(g := None)\<rparr>"
  let ?i1 = "i\<lparr>image_file := None\<rparr>"
  have d: "image_delete i w = (?i1, ?w1)" using assms(2) by (simp add: image_delete_def)
  have e: "edit L nm None pk cs modal w = edit_finish L nm pk cs modal ?i1 ?w1"
    by (simp add: edit_def assms(1) then_do_def d)
  have "files (snd (edit L nm None pk cs modal w)) = (files w)(g := None)"
    unfolding e by (rule edit_finish_files) simp
  then show ?thesis using assms(2) by (simp add: image_read_def)
qed

lemma get_issue_world1: "get_issue world1 (u ''wifi'') = Some issue1"
  by (simp add: get_issue_def world1_def world0_def issue1_def issue0_def)

theorem edit_without_image_deletes_blob_witness:
  "get_issue world1 (u ''wifi'') = Some issue1 \<and> image_file issue1 = Some 0
   \<and> files world1 0 \<noteq> None
   \<and> files (snd (edit lib0 (u ''wifi'') None None None (\<lambda>i. Some i) world1)) 0 = None
   \<and> image_read (files (snd (edit lib0 (u ''wifi'') None None None (\<lambda>i. Some i) world1))) issue1
       = None"
proof -
  have h2: "image_file issue1 = Some 0" by (simp add: issue1_def)
  have h3: "files world1 0 \<noteq> None" by (simp add: world1_def)
  show ?thesis
    using edit_without_image_deletes_blob [OF get_issue_world1 h2, of lib0 None None "\<lambda>i. Some i"]
      get_issue_world1 h2 h3
    by blast
qed

text \<open>
  Claim C9 at a failing input. The issue \<open>wifi\<close> exists and the attachment is a PDF of four
  bytes; the user then cancels the modal. \<open>edit\<close> raises no validation error: it has
  stored the PDF as the issue's image, in place of the PNG it had, before the modal is
  shown, and ends with the \<open>TypeError\<close> of the cancel branch. \<open>add\<close> refuses any such
  attachment and leaves the state as it was.
\<close>

theorem edit_accepts_non_image:
  "fst (edit lib0 (u ''wifi'') (Some pdf) None None (\<lambda>i. None) world1) = Inl TypeError
   \<and> files (snd (edit lib0 (u ''wifi'') (Some pdf) None None (\<lambda>i. None) world1)) 1
       = Some \<lparr>data = [37, 80, 68, 70], content_type = Some (u ''application/pdf'')\<rparr>
   \<and> files (snd (edit lib0 (u ''wifi'') (Some pdf) None None (\<lambda>i. None) world1)) 0 = None"
proof -
  have r: "image_replace issue1 (payload pdf) (ctype pdf) world1
      = (Inr (issue1\<lparr>image_file := Some 1\<rparr>),
         world1\<lparr>files := ((files world1)(0 := None))(1 \<mapsto> \<lparr>data = [37, 80, 68, 70],
                     content_type = Some (u ''application/pdf'')\<rparr>),
                next_file := 2\<rparr>)"
    by (simp add: image_replace_def image_delete_def image_put_def issue1_def world1_def
        world0_def pdf_def)
  have e: "edit lib0 (u ''wifi'') (Some pdf) None None (\<lambda>i. None) world1
      = (Inl TypeError, world1\<lparr>files := ((files world1)(0 := None))(1 \<mapsto> \<lparr>data = [37, 80, 68, 70],
                     content_type = Some (u ''application/pdf'')\<rparr>),
                next_file := 2\<rparr>)"
  proof -
    have sz: "\<not> size_b pdf > 8000000" by (simp add: pdf_def)
    show ?thesis
      unfolding edit_def get_issue_world1 option.case
      by (simp add: then_do_def r edit_finish_def raise_def sz)
  qed
  show ?thesis unfolding e by simp
qed

lemma add_rejects_non_image:
  assumes "get_issue w nm = None" and "ctype a \<notin> set image_types"
  shows "add L nm (Some a) pk cs modal w
         = (Inl (BadArgument (u ''Attached file was not an image!'')), w)"
  using assms by (simp add: add_def)

lemma then_do_Inr:
  assumes "then_do m f w = (Inr b, w2)"
  shows "\<exists>a w1. m w = (Inr a, w1) \<and> f a w1 = (Inr b, w2)"
proof (cases "m w")
  case (Pair r w1)
  show ?thesis
  proof (cases r)
    case (Inl e) then show ?thesis using assms Pair by (simp add: then_do_def)
  next
    case (Inr a) then show ?thesis using assms Pair by (simp add: then_do_def)
  qed
qed

lemma add_finish_issues:
  assumes "add_finish L nm img pk cs iss w = (Inr (), w1)"
  shows "\<exists>r. issues w1 = issues w @ [r] \<and> name r = name iss"
proof -
  from then_do_Inr[OF assms[unfolded add_finish_def]] obtain i1 wa where
    a: "(case img of None \<Rightarrow> ret iss | Some a \<Rightarrow> image_put iss (payload a) (ctype a)) w = (Inr i1, wa)"
    and b: "then_do (embed_io L i1)
       (\<lambda>em v. then_do (send (issue_file (files v) i1) em (prepare_issue_view L i1))
       (\<lambda>mid. then_do (parse_color L nm cs)
       (\<lambda>c. then_do (upd (add_issue (i1\<lparr>message_id := Some mid,
                                          panic_string := Some (or_empty pk),
                                          color := Some c\<rparr>)))
       (\<lambda>_. then_do refresh_common_issues
       (\<lambda>_. then_do (embed_after_color L cs (i1\<lparr>message_id := Some mid,
                                      panic_string := Some (or_empty pk),
                                      color := Some c\<rparr>))
       (\<lambda>_. ret ()))))) v) wa = (Inr (), w1)" by blast
  have i1: "name i1 = name iss \<and> issues wa = issues w"
    using a by (auto simp: ret_def image_put_def split: option.splits if_splits)
  from then_do_Inr[OF b] obtain em wb where
    c: "embed_io L i1 wa = (Inr em, wb)"
    and d: "then_do (send (issue_file (files wb) i1) em (prepare_issue_view L i1))
       (\<lambda>mid. then_do (parse_color L nm cs)
       (\<lambda>c. then_do (upd (add_issue (i1\<lparr>message_id := Some mid,
                                          panic_string := Some (or_empty pk),
                                          color := Some c\<rparr>)))
       (\<lambda>_. then_do refresh_common_issues
       (\<lambda>_. then_do (embed_after_color L cs (i1\<lparr>message_id := Some mid,
                                      panic_string := Some (or_empty pk),
                                      color := Some c\<rparr>))
       (\<lambda>_. ret ()))))) wb = (Inr (), w1)" by blast
  have wb: "wb = wa" using c by (simp add: embed_io_def)
  from then_do_Inr[OF d] obtain mid wc where
    e: "send (issue_file (files wb) i1) em (prepare_issue_view L i1) wb = (Inr mid, wc)"
    and f: "then_do (parse_color L nm cs)
       (\<lambda>c. then_do (upd (add_issue (i1\<lparr>message_id := Some mid,
                                          panic_string := Some (or_empty pk),
                                          color := Some c\<rparr>)))
       (\<lambda>_. then_do refresh_common_issues
       (\<lambda>_. then_do (embed_after_color L cs (i1\<lparr>message_id := Some mid,
                                      panic_string := Some (or_empty pk),
                                      color := Some c\<rparr>))
       (\<lambda>_. ret ())))) wc = (Inr (), w1)" by blast
  have wc: "issues wc = issues wb"
    using send_frame[of "issue_file (files wb) i1" em "prepare_issue_view L i1" wb] e by simp
  from then_do_Inr[OF f] obtain c wd where
    g: "parse_color L nm cs wc = (Inr c, wd)"
    and h: "then_do (upd (add_issue (i1\<lparr>message_id := Some mid,
                                          panic_string := Some (or_empty pk),
                                          color := Some c\<rparr>)))
       (\<lambda>_. then_do refresh_common_issues
       (\<lambda>_. then_do (embed_after_color L cs (i1\<lparr>message_id := Some mid,
                                      panic_string := Some (or_empty pk),
                                      color := Some c\<rparr>))
       (\<lambda>_. ret ()))) wd = (Inr (), w1)" by blast
  have wd: "wd = wc" using g parse_color_state[of L nm cs wc] by simp
  let ?r = "i1\<lparr>message_id := Some mid, panic_string := Some (or_empty pk), color := Some c\<rparr>"
  from then_do_Inr[OF h] obtain x we where
    k: "upd (add_issue ?r) wd = (Inr x, we)"
    and l: "then_do refresh_common_issues
       (\<lambda>_. then_do (embed_after_color L cs ?r) (\<lambda>_. ret ())) we = (Inr (), w1)" by blast
  have we: "issues we = issues wd @ [?r]" using k by (auto simp: upd_def add_issue_def)
  from then_do_Inr[OF l] obtain y wf where
    m: "refresh_common_issues we = (Inr y, wf)"
    and n: "then_do (embed_after_color L cs ?r) (\<lambda>_. ret ()) wf = (Inr (), w1)" by blast
  have wf: "issues wf = issues we" using refresh_common_issues_frame[of we] m by simp
  from then_do_Inr[OF n] obtain z wg where
    o: "embed_after_color L cs ?r wf = (Inr z, wg)" and q: "ret () wg = (Inr (), w1)" by blast
  have "wg = wf" using o embed_after_color_state[of L cs ?r wf] by simp
  moreover have "w1 = wg" using q by (simp add: ret_def)
  ultimately have "issues w1 = issues w @ [?r]" using wf we wd wc wb i1 by simp
  moreover have "name ?r = name iss" using i1 by simp
  ultimately show ?thesis by blast
qed

lemma find_append_new:
  assumes "find P xs = None" and "P r"
  shows "find P (xs @ [r]) = Some r \<and> filter P (xs @ [r]) = [r]"
  using assms by (induction xs) (auto split: if_splits)

text \<open>
  Claim C7. When \<open>add\<close> has stored an issue under a name, every further \<open>add\<close> with that
  name, whatever its other arguments, raises the validation error \<open>BadArgument\<close> (which
  the error handler shows to the invoker) as its first step and changes nothing: the
  store still holds exactly one record of that name, the first.
\<close>

theorem add_twice_rejected:
  assumes "add L nm img pk cs (Some iss) w = (Inr (), w1)" and "name iss = nm"
  shows "add L nm img' pk' cs' modal' w1
           = (Inl (BadArgument (u ''Issue with that name already exists.'')), w1)
         \<and> (\<exists>r. filter (\<lambda>j. name j = nm) (issues w1) = [r] \<and> get_issue w1 nm = Some r)"
proof -
  have g0: "get_issue w nm = None"
    using assms(1) by (auto simp: add_def split: if_splits)
  have fin: "add_finish L nm img pk cs iss w = (Inr (), w1)"
    using assms(1) by (auto simp: add_def split: if_splits)
  from add_finish_issues[OF fin] obtain r where r: "issues w1 = issues w @ [r]" "name r = name iss"
    by blast
  have "find (\<lambda>j. name j = nm) (issues w) = None" using g0 by (simp add: get_issue_def)
  from find_append_new[OF this, of r] r assms(2)
  have fr: "find (\<lambda>j. name j = nm) (issues w1) = Some r"
    "filter (\<lambda>j. name j = nm) (issues w1) = [r]" by simp_all
  have g1: "get_issue w1 nm = Some r" using fr(1) by (simp add: get_issue_def)
  then have "add L nm img' pk' cs' modal' w1
           = (Inl (BadArgument (u ''Issue with that name already exists.'')), w1)"
    by (simp add: add_def)
  then show ?thesis using fr(2) g1 by blast
qed

lemma index_line_example:
  "index_line 1 2 0 (issue0\<lparr>message_id := Some 100, panic_string := Some [], color := Some 16711680\<rparr>)
   = u ''1. [wifi](https://discord.com/channels/1/2/100)'' @ [10]"
  by (simp add: index_line_def issue0_def str_int_def str_opt_int_def str_nat.simps u_def)

lemma add_example:
  "fst (add lib0 (u ''wifi'') None None None (Some issue0) world0) = Inr ()"
  by (simp add: add_def add_finish_def get_issue_def world0_def then_do_def ret_def embed_io_def
      prepare_issue_embed_def Color_value_def send_def fails_def Let_def parse_color_def upd_def
      embed_after_color_def color_given_def
      add_issue_def refresh_common_issues_def delete_old_pages_def index_line_example[simplified]
      edit_issues_list_def issue0_def index_line_def str_int_def str_opt_int_def str_nat.simps
      u_def)

theorem add_twice_rejected_witness:
  "add lib0 (u ''wifi'') None None None (Some issue0) world0
     = (Inr (), snd (add lib0 (u ''wifi'') None None None (Some issue0) world0))
   \<and> name issue0 = u ''wifi''
   \<and> add lib0 (u ''wifi'') None None None (Some issue0)
        (snd (add lib0 (u ''wifi'') None None None (Some issue0) world0))
       = (Inl (BadArgument (u ''Issue with that name already exists.'')),
          snd (add lib0 (u ''wifi'') None None None (Some issue0) world0))
   \<and> (\<exists>r. filter (\<lambda>j. name j = u ''wifi'')
             (issues (snd (add lib0 (u ''wifi'') None None None (Some issue0) world0))) = [r])"
proof -
  let ?a = "add lib0 (u ''wifi'') None None None (Some issue0) world0"
  have h1: "?a = (Inr (), snd ?a)" using add_example by (cases ?a) simp
  have h2: "name issue0 = u ''wifi''" by (simp add: issue0_def)
  show ?thesis
    using add_twice_rejected [OF h1 h2, of None None None "Some issue0"] h1 h2 by blast
qed

section \<open>The import: properties\<close>

text \<open>
  A message whose footer does not start with \<open>Submitted by\<close> is left as it is, whatever
  its title.
\<close>

lemma import_message_skips:
  assumes "embeds m = e # es" and "footer_text e = Some ft"
    and "\<not> startswith ft (u ''Submitted by'')"
  shows "import_message L m w = (Inr (), w)"
  using assms by (simp add: import_message_def ret_def)

text \<open>
  Claim C3 at a failing input. The channel holds one message of the bot, a legacy index
  page with the title \<open>Table of Contents\<close> and the footer \<open>Page 1\<close>. The import ends
  without an exception and the page is still in the channel: the loop has left the
  message at the test of the footer, before the branch that deletes index pages. No
  issue record is made.
\<close>

theorem do_import_keeps_table_of_contents:
  "startswith (title (hd (embeds toc_msg))) (u ''Table of'')
   \<and> fst (do_import lib0 world_toc) = Inr ()
   \<and> channel (snd (do_import lib0 world_toc)) = [toc_msg]
   \<and> issues (snd (do_import lib0 world_toc)) = []"
proof -
  have t: "startswith (title (hd (embeds toc_msg))) (u ''Table of'')"
    by (simp add: toc_msg_def page_embed_def startswith_def u_def)
  have e: "embeds toc_msg = page_embed (u ''Table of Contents'')
      (u ''1. [wifi](https://example.org)'' @ [10]) 1 # []"
    by (simp add: toc_msg_def)
  have f: "footer_text (page_embed (u ''Table of Contents'')
      (u ''1. [wifi](https://example.org)'' @ [10]) 1) = Some (u ''Page 1'')"
    by (simp add: page_embed_def str_int_def str_nat.simps u_def)
  have n: "\<not> startswith (u ''Page 1'') (u ''Submitted by'')"
    by (simp add: startswith_def u_def)
  have m: "import_message lib0 toc_msg world_toc = (Inr (), world_toc)"
    by (rule import_message_skips[OF e f n])
  have c: "channel world_toc = [toc_msg]" by (simp add: world_toc_def)
  have l: "import_loop lib0 (channel world_toc) world_toc = (Inr (), world_toc)"
    unfolding c by (simp add: m)
  have i0: "issues_list_msg world_toc = None" "issues world_toc = []"
    by (simp_all add: world_toc_def world0_def)
  have r: "refresh_common_issues world_toc
      = (Inr (), world_toc\<lparr>issues_list_msg := Some []\<rparr>)"
    by (simp add: refresh_common_issues_def delete_old_pages_def i0 edit_issues_list_def)
  have d: "do_import lib0 world_toc
      = (Inr (), world_toc\<lparr>issues_list_msg := Some [],
           followups := followups world_toc @ [u ''Imported all embeds as common issues!'']\<rparr>)"
    by (simp add: do_import_def then_do_def l r upd_def)
  show ?thesis using t unfolding d by (simp add: c i0)
qed


text \<open>
  The import has no handler around the processing of a message: an exception raised for
  one message ends the import with that exception, in the state reached, and the
  messages after it are not processed. A legacy message whose embed has no colour is
  such a message (\<open>embed.color.value\<close> raises \<open>AttributeError\<close>).
\<close>

lemma import_loop_aborts:
  assumes "import_loop L pre w = (Inr (), w1)" and "import_message L m w1 = (Inl e, w2)"
  shows "import_loop L (pre @ m # rest) w = (Inl e, w2)"
  using assms
proof (induction pre arbitrary: w)
  case Nil
  then show ?case by simp
next
  case (Cons a pre)
  obtain r wa where a: "import_message L a w = (r, wa)" by (cases "import_message L a w")
  show ?case
  proof (cases r)
    case (Inl x)
    then show ?thesis using Cons.prems(1) a by simp
  next
    case (Inr x)
    then have "import_loop L pre wa = (Inr (), w1)" using Cons.prems(1) a by simp
    from Cons.IH[OF this Cons.prems(2)] show ?thesis using a Inr by simp
  qed
qed

lemma do_import_aborts:
  assumes "channel w = pre @ m # rest" and "import_loop L pre w = (Inr (), w1)"
    and "import_message L m w1 = (Inl e, w2)"
  shows "do_import L w = (Inl e, w2)"
  using import_loop_aborts[OF assms(2,3), of rest] assms(1)
  by (simp add: do_import_def then_do_def)

lemma import_message_legacy:
  "import_message lib0 legacy_msg w = (Inl AttributeError, w)"
proof -
  have s: "startswith (u ''Submitted by ann'') (u ''Submitted by'')"
    by (simp add: startswith_def u_def)
  have n: "u ''Submitted by ann'' \<noteq> []" by (simp add: u_def)
  show ?thesis
    by (simp add: import_message_def legacy_msg_def s n import_issue_def Let_def then_do_def
        ret_def raise_def)
qed

lemma do_import_legacy_aborts:
  assumes "channel w = legacy_msg # rest"
  shows "do_import lib0 w = (Inl AttributeError, w)"
  using do_import_aborts[of w "[]" legacy_msg rest lib0 w AttributeError w] assms
    import_message_legacy[of w] by simp


section \<open>The index of the common issues: properties\<close>

text \<open>
  What one run of the loop posts: the new messages are pages numbered from \<open>page + 1\<close>,
  each longer than 3072 and made of a buffer of at most 3072 characters and one line.
\<close>

lemma index_loop_pages:
  assumes "index_loop gid cid n xs ttl desc page ids w = (Inr (ttl', desc', page', ids'), w')"
    and "length desc \<le> 3072"
    and "set (index_lines gid cid n xs) \<subseteq> S"
    and "desc = [] \<or> (\<exists>q l. desc = q @ l \<and> l \<in> S)"
  shows "\<exists>new. channel w' = channel w @ new \<and> ids' = ids @ map msg_id new
           \<and> page' = page + length new \<and> length desc' \<le> 3072
           \<and> (desc' = [] \<or> (\<exists>q l. desc' = q @ l \<and> l \<in> S))
           \<and> (\<forall>k<length new. \<exists>t q l. embeds (new ! k) = [page_embed t (q @ l) (page + k + 1)]
                  \<and> length q \<le> 3072 \<and> l \<in> S \<and> 3072 < length (q @ l))"
  using assms
proof (induction xs arbitrary: n ttl desc page ids w)
  case Nil
  then have "w' = w" "ids' = ids" "page' = page" "desc' = desc" by simp_all
  then have "channel w' = channel w @ [] \<and> ids' = ids @ map msg_id [] \<and> page' = page + length ([]::message list)
      \<and> length desc' \<le> 3072 \<and> (desc' = [] \<or> (\<exists>q l. desc' = q @ l \<and> l \<in> S))
      \<and> (\<forall>k<length ([]::message list). \<exists>t q l. embeds ([] ! k) = [page_embed t (q @ l) (page + k + 1)]
                  \<and> length q \<le> 3072 \<and> l \<in> S \<and> 3072 < length (q @ l))"
    using Nil.prems(2,4) by simp
  then show ?case by blast
next
  case (Cons i rest)
  let ?l = "index_line gid cid n i"
  have lS: "?l \<in> S" and restS: "set (index_lines gid cid (Suc n) rest) \<subseteq> S"
    using Cons.prems(3) by simp_all
  show ?case
  proof (cases "length (desc @ ?l) > 3072")
    case False
    then have run: "index_loop gid cid (Suc n) rest ttl (desc @ ?l) page ids w
        = (Inr (ttl', desc', page', ids'), w')"
      using Cons.prems(1) by simp
    have le: "length (desc @ ?l) \<le> 3072" using False by simp
    have bf: "desc @ ?l = [] \<or> (\<exists>q l. desc @ ?l = q @ l \<and> l \<in> S)" using lS by blast
    from Cons.IH[OF run le restS bf] show ?thesis .
  next
    case True
    let ?e = "page_embed ttl (desc @ ?l) (page + 1)"
    obtain r w1 where s: "send None ?e None w = (r, w1)" by (cases "send None ?e None w")
    show ?thesis
    proof (cases r)
      case (Inl e)
      then show ?thesis using Cons.prems(1) True s by simp
    next
      case (Inr mid)
      have run: "index_loop gid cid (Suc n) rest [] [] (page + 1) (ids @ [mid]) w1
          = (Inr (ttl', desc', page', ids'), w')"
        using Cons.prems(1) True s Inr by simp
      define m where "m = \<lparr>msg_id = next_id w, author_bot = True, embeds = [?e],
          components = view_components None, attachments = []\<rparr>"
      have w1: "channel w1 = channel w @ [m]" and mid: "mid = msg_id m"
        using s Inr by (auto simp: send_def Let_def m_def split: if_splits)
      have e0: "length ([]::ustr) \<le> 3072" by simp
      have e1: "([]::ustr) = [] \<or> (\<exists>q l. ([]::ustr) = q @ l \<and> l \<in> S)" by simp
      from Cons.IH[OF run e0 restS e1] obtain new where new:
        "channel w' = channel w1 @ new" "ids' = (ids @ [mid]) @ map msg_id new"
        "page' = page + 1 + length new" "length desc' \<le> 3072"
        "desc' = [] \<or> (\<exists>q l. desc' = q @ l \<and> l \<in> S)"
        "\<forall>k<length new. \<exists>t q l. embeds (new ! k) = [page_embed t (q @ l) (page + 1 + k + 1)]
                  \<and> length q \<le> 3072 \<and> l \<in> S \<and> 3072 < length (q @ l)"
        by blast
      have pg: "\<forall>k<length (m # new). \<exists>t q l. embeds ((m # new) ! k) = [page_embed t (q @ l) (page + k + 1)]
                  \<and> length q \<le> 3072 \<and> l \<in> S \<and> 3072 < length (q @ l)"
      proof (intro allI impI)
        fix k assume k: "k < length (m # new)"
        show "\<exists>t q l. embeds ((m # new) ! k) = [page_embed t (q @ l) (page + k + 1)]
                  \<and> length q \<le> 3072 \<and> l \<in> S \<and> 3072 < length (q @ l)"
        proof (cases k)
          case 0
          have "embeds m = [page_embed ttl (desc @ ?l) (page + 0 + 1)] \<and> length desc \<le> 3072
              \<and> ?l \<in> S \<and> 3072 < length (desc @ ?l)"
            using Cons.prems(2) lS True by (simp add: m_def)
          then show ?thesis unfolding 0 by (simp only: nth_Cons_0) blast
        next
          case (Suc j)
          then have "j < length new" using k by simp
          with new(6) obtain t q l where
            "embeds (new ! j) = [page_embed t (q @ l) (page + 1 + j + 1)]"
            "length q \<le> 3072" "l \<in> S" "3072 < length (q @ l)" by blast
          then have "embeds ((m # new) ! k) = [page_embed t (q @ l) (page + k + 1)]
              \<and> length q \<le> 3072 \<and> l \<in> S \<and> 3072 < length (q @ l)"
            unfolding Suc by simp
          then show ?thesis by blast
        qed
      qed
      have "channel w' = channel w @ (m # new) \<and> ids' = ids @ map msg_id (m # new)
          \<and> page' = page + length (m # new) \<and> length desc' \<le> 3072
          \<and> (desc' = [] \<or> (\<exists>q l. desc' = q @ l \<and> l \<in> S))"
        using new(1-5) w1 mid by simp
      then show ?thesis using pg by blast
    qed
  qed
qed


lemma length_str_nat: "1 \<le> length (str_nat n)"
  by (subst str_nat.simps) simp

lemma length_str_int: "1 \<le> length (str_int i)"
  using length_str_nat[of "nat i"] by (simp add: str_int_def)

lemma length_str_opt_int: "1 \<le> length (str_opt_int v)"
  using length_str_int by (cases v) (simp_all add: str_opt_int_def u_def)

lemma length_index_line:
  "length (name i) + 42 \<le> length (index_line gid cid n i)"
  using length_str_int[of "int n + 1"] length_str_int[of gid] length_str_int[of cid]
    length_str_opt_int[of "message_id i"]
  by (simp add: index_line_def u_def)

lemma index_lines_long:
  assumes "\<forall>i\<in>set xs. length (name i) = 10"
  shows "\<forall>l\<in>set (index_lines gid cid n xs). 52 \<le> length l"
  using assms
proof (induction xs arbitrary: n)
  case Nil
  then show ?case by simp
next
  case (Cons i rest)
  have "52 \<le> length (index_line gid cid n i)"
    using length_index_line[of i gid cid n] Cons.prems by simp
  then show ?case using Cons by simp
qed

text \<open>
  Counting: when every line has 52 characters or more, a buffer of at most 3072
  characters holds at most 59 lines and a page at most 60.
\<close>

lemma index_loop_count:
  assumes "index_loop gid cid n xs ttl desc page ids w = (Inr (ttl', desc', page', ids'), w')"
    and "\<forall>l\<in>set (index_lines gid cid n xs). 52 \<le> length l"
    and "c * 52 \<le> length desc" and "length desc \<le> 3072"
  shows "\<exists>c'. c' * 52 \<le> length desc' \<and> length xs + c + 60 * page \<le> 60 * page' + c'"
  using assms
proof (induction xs arbitrary: n ttl desc page ids w c)
  case Nil
  then have "desc' = desc" "page' = page" by simp_all
  then show ?case using Nil.prems(3) by auto
next
  case (Cons i rest)
  let ?l = "index_line gid cid n i"
  have l52: "52 \<le> length ?l"
    and rest52: "\<forall>l\<in>set (index_lines gid cid (Suc n) rest). 52 \<le> length l"
    using Cons.prems(2) by simp_all
  show ?case
  proof (cases "length (desc @ ?l) > 3072")
    case False
    then have run: "index_loop gid cid (Suc n) rest ttl (desc @ ?l) page ids w
        = (Inr (ttl', desc', page', ids'), w')"
      using Cons.prems(1) by simp
    have c1: "Suc c * 52 \<le> length (desc @ ?l)" using Cons.prems(3) l52 by simp
    have le: "length (desc @ ?l) \<le> 3072" using False by simp
    from Cons.IH[OF run rest52 c1 le] obtain c' where
      "c' * 52 \<le> length desc'" "length rest + Suc c + 60 * page \<le> 60 * page' + c'" by blast
    then have "c' * 52 \<le> length desc' \<and> length (i # rest) + c + 60 * page \<le> 60 * page' + c'"
      by simp
    then show ?thesis by blast
  next
    case True
    let ?e = "page_embed ttl (desc @ ?l) (page + 1)"
    obtain r w1 where s: "send None ?e None w = (r, w1)" by (cases "send None ?e None w")
    show ?thesis
    proof (cases r)
      case (Inl e)
      then show ?thesis using Cons.prems(1) True s by simp
    next
      case (Inr mid)
      have run: "index_loop gid cid (Suc n) rest [] [] (page + 1) (ids @ [mid]) w1
          = (Inr (ttl', desc', page', ids'), w')"
        using Cons.prems(1) True s Inr by simp
      have z: "0 * 52 \<le> length ([]::ustr)" "length ([]::ustr) \<le> 3072" by simp_all
      from Cons.IH[OF run rest52 z] obtain c' where c':
        "c' * 52 \<le> length desc'" "length rest + 0 + 60 * (page + 1) \<le> 60 * page' + c'" by blast
      have "c \<le> 59" using Cons.prems(3,4) by simp
      then have "length (i # rest) + c + 60 * page \<le> 60 * page' + c'" using c'(2) by simp
      then show ?thesis using c'(1) by blast
    qed
  qed
qed


lemma fetch_message_same:
  "guild_id (snd (fetch_message mid w)) = guild_id w
   \<and> channel_id (snd (fetch_message mid w)) = channel_id w
   \<and> send_faults (snd (fetch_message mid w)) = send_faults w
   \<and> next_id (snd (fetch_message mid w)) = next_id w"
  by (simp add: fetch_message_def Let_def split: option.splits)

lemma delete_message_same:
  "guild_id (snd (delete_message m w)) = guild_id w
   \<and> channel_id (snd (delete_message m w)) = channel_id w
   \<and> send_faults (snd (delete_message m w)) = send_faults w
   \<and> next_id (snd (delete_message m w)) = next_id w"
  by (simp add: delete_message_def Let_def)

lemma try_delete_same:
  "guild_id (try_delete mid w) = guild_id w \<and> channel_id (try_delete mid w) = channel_id w
   \<and> send_faults (try_delete mid w) = send_faults w \<and> next_id (try_delete mid w) = next_id w"
proof (cases "fetch_message mid w")
  case (Pair r w1)
  have fr: "guild_id w1 = guild_id w \<and> channel_id w1 = channel_id w
      \<and> send_faults w1 = send_faults w \<and> next_id w1 = next_id w"
    using fetch_message_same[of mid w] Pair by simp
  show ?thesis
  proof (cases r)
    case (Inl e)
    then show ?thesis using fr Pair by (simp add: try_delete_def)
  next
    case (Inr m)
    then show ?thesis using fr Pair delete_message_same[of m w1] by (simp add: try_delete_def)
  qed
qed

lemma delete_old_same:
  "guild_id (delete_old old w) = guild_id w \<and> channel_id (delete_old old w) = channel_id w
   \<and> send_faults (delete_old old w) = send_faults w \<and> next_id (delete_old old w) = next_id w"
  by (induction old arbitrary: w) (simp_all add: try_delete_same)

lemma delete_old_pages_same:
  "guild_id (delete_old_pages w) = guild_id w" "channel_id (delete_old_pages w) = channel_id w"
  "issues (delete_old_pages w) = issues w" "send_faults (delete_old_pages w) = send_faults w"
  "next_id (delete_old_pages w) = next_id w"
  by (simp_all add: delete_old_pages_def delete_old_same delete_old_frame split: option.splits)

text \<open>
  What a rebuild that ends without an exception has posted and stored: the new messages
  are the pages, numbered from 1 in the order of posting; the stored list is the list of
  their ids; every page is a buffer of at most 3072 characters and one more line; every
  page but the last has more than 3072 characters.
\<close>

lemma refresh_common_issues_pages:
  assumes "refresh_common_issues w = (Inr (), w')"
  shows "\<exists>new. channel w' = channel (delete_old_pages w) @ new
           \<and> issues_list_msg w' = Some (map msg_id new)
           \<and> (\<forall>k<length new. \<exists>t q l. embeds (new ! k) = [page_embed t (q @ l) (k + 1)]
                  \<and> length q \<le> 3072
                  \<and> l \<in> set (index_lines (guild_id w) (channel_id w) 0 (issues w))
                  \<and> (k + 1 < length new \<longrightarrow> 3072 < length (q @ l)))"
proof -
  let ?w1 = "delete_old_pages w"
  let ?S = "set (index_lines (guild_id w) (channel_id w) 0 (issues w))"
  let ?loop = "index_loop (guild_id w) (channel_id w) 0 (issues w) (u ''Table of Contents'')
      [] 0 [] ?w1"
  have unf: "refresh_common_issues w =
      (case ?loop of
        (Inl e, w2) \<Rightarrow> (Inl e, w2)
      | (Inr (ttl, desc, page, ids), w2) \<Rightarrow>
          if length desc > 0
          then (case send None (page_embed ttl desc (page + 1)) None w2 of
                  (Inl e, w3) \<Rightarrow> (Inl e, w3)
                | (Inr mid, w3) \<Rightarrow> (Inr (), edit_issues_list (ids @ [mid]) w3))
          else (Inr (), edit_issues_list ids w2))"
    by (simp add: refresh_common_issues_def Let_def delete_old_pages_same)
  obtain r w2 where l: "?loop = (r, w2)" by (cases ?loop)
  show ?thesis
  proof (cases r)
    case (Inl e)
    then show ?thesis using assms l unfolding unf by simp
  next
    case (Inr st)
    obtain ttl desc page ids where st: "st = (ttl, desc, page, ids)" by (cases st)
    have run: "?loop = (Inr (ttl, desc, page, ids), w2)" using l Inr st by simp
    have e0: "length ([]::ustr) \<le> 3072" by simp
    have e1: "([]::ustr) = [] \<or> (\<exists>q l. ([]::ustr) = q @ l \<and> l \<in> ?S)" by simp
    from index_loop_pages[OF run e0 subset_refl e1] obtain new where new:
      "channel w2 = channel ?w1 @ new" "ids = [] @ map msg_id new" "page = 0 + length new"
      "length desc \<le> 3072" "desc = [] \<or> (\<exists>q l. desc = q @ l \<and> l \<in> ?S)"
      "\<forall>k<length new. \<exists>t q l. embeds (new ! k) = [page_embed t (q @ l) (0 + k + 1)]
          \<and> length q \<le> 3072 \<and> l \<in> ?S \<and> 3072 < length (q @ l)" by blast
    show ?thesis
    proof (cases "length desc > 0")
      case False
      then have w': "w' = edit_issues_list ids w2" using assms run unfolding unf by simp
      have "channel w' = channel ?w1 @ new \<and> issues_list_msg w' = Some (map msg_id new)"
        using new(1,2) by (simp add: w' edit_issues_list_def)
      moreover have "\<forall>k<length new. \<exists>t q l. embeds (new ! k) = [page_embed t (q @ l) (k + 1)]
          \<and> length q \<le> 3072 \<and> l \<in> ?S \<and> (k + 1 < length new \<longrightarrow> 3072 < length (q @ l))"
        using new(6) by (simp only: add_0) blast
      ultimately show ?thesis by blast
    next
      case True
      let ?e = "page_embed ttl desc (page + 1)"
      obtain r3 w3 where s: "send None ?e None w2 = (r3, w3)" by (cases "send None ?e None w2")
      show ?thesis
      proof (cases r3)
        case (Inl e)
        then show ?thesis using assms run True s unfolding unf by simp
      next
        case (Inr mid)
        then have w': "w' = edit_issues_list (ids @ [mid]) w3"
          using assms run True s unfolding unf by simp
        define m where "m = \<lparr>msg_id = next_id w2, author_bot = True, embeds = [?e],
            components = view_components None, attachments = []\<rparr>"
        have w3: "channel w3 = channel w2 @ [m]" and mid: "mid = msg_id m"
          using s Inr by (auto simp: send_def Let_def m_def split: if_splits)
        from True new(5) obtain q l where ql: "desc = q @ l" "l \<in> ?S" by auto
        have qle: "length q \<le> 3072" using ql(1) new(4) by simp
        have ch: "channel w' = channel ?w1 @ (new @ [m])
            \<and> issues_list_msg w' = Some (map msg_id (new @ [m]))"
          using new(1,2) w3 mid by (simp add: w' edit_issues_list_def)
        have "\<forall>k<length (new @ [m]). \<exists>t q l. embeds ((new @ [m]) ! k) = [page_embed t (q @ l) (k + 1)]
            \<and> length q \<le> 3072 \<and> l \<in> ?S
            \<and> (k + 1 < length (new @ [m]) \<longrightarrow> 3072 < length (q @ l))"
        proof (intro allI impI)
          fix k assume k: "k < length (new @ [m])"
          show "\<exists>t q l. embeds ((new @ [m]) ! k) = [page_embed t (q @ l) (k + 1)]
            \<and> length q \<le> 3072 \<and> l \<in> ?S
            \<and> (k + 1 < length (new @ [m]) \<longrightarrow> 3072 < length (q @ l))"
          proof (cases "k < length new")
            case True
            with new(6) obtain t q' l' where
              "embeds (new ! k) = [page_embed t (q' @ l') (0 + k + 1)]" "length q' \<le> 3072"
              "l' \<in> ?S" "3072 < length (q' @ l')" by blast
            then have "embeds ((new @ [m]) ! k) = [page_embed t (q' @ l') (k + 1)]
                \<and> length q' \<le> 3072 \<and> l' \<in> ?S
                \<and> (k + 1 < length (new @ [m]) \<longrightarrow> 3072 < length (q' @ l'))"
              using True by (simp add: nth_append)
            then show ?thesis by blast
          next
            case False
            then have kk: "k = length new" using k by simp
            have "embeds ((new @ [m]) ! k) = [page_embed ttl (q @ l) (k + 1)]
                \<and> length q \<le> 3072 \<and> l \<in> ?S
                \<and> (k + 1 < length (new @ [m]) \<longrightarrow> 3072 < length (q @ l))"
              using kk new(3) ql qle by (simp add: m_def)
            then show ?thesis by blast
          qed
        qed
        then show ?thesis using ch by blast
      qed
    qed
  qed
qed

lemma send_succeeds:
  assumes "send_faults w = []"
  shows "\<exists>w'. send f e v w = (Inr (next_id w), w') \<and> send_faults w' = []"
  using assms by (simp add: send_def Let_def fails_def)

lemma index_loop_succeeds:
  assumes "send_faults w = []"
  shows "\<exists>st w'. index_loop gid cid n xs ttl desc page ids w = (Inr st, w') \<and> send_faults w' = []"
  using assms
proof (induction xs arbitrary: n ttl desc page ids w)
  case Nil
  then show ?case by simp
next
  case (Cons i rest)
  let ?l = "index_line gid cid n i"
  show ?case
  proof (cases "length (desc @ ?l) > 3072")
    case False
    then show ?thesis using Cons.IH[OF Cons.prems] by simp
  next
    case True
    obtain w1 where s: "send None (page_embed ttl (desc @ ?l) (page + 1)) None w = (Inr (next_id w), w1)"
      and f: "send_faults w1 = []"
      using send_succeeds[OF Cons.prems] by blast
    from Cons.IH[OF f] obtain st w' where
      "index_loop gid cid (Suc n) rest [] [] (page + 1) (ids @ [next_id w]) w1 = (Inr st, w')"
      "send_faults w' = []" by blast
    then have "index_loop gid cid n (i # rest) ttl desc page ids w = (Inr st, w')
        \<and> send_faults w' = []" using True s by simp
    then show ?thesis by blast
  qed
qed

lemma refresh_common_issues_unfold:
  "refresh_common_issues w =
      (case index_loop (guild_id w) (channel_id w) 0 (issues w) (u ''Table of Contents'')
              [] 0 [] (delete_old_pages w) of
        (Inl e, w2) \<Rightarrow> (Inl e, w2)
      | (Inr (ttl, desc, page, ids), w2) \<Rightarrow>
          if length desc > 0
          then (case send None (page_embed ttl desc (page + 1)) None w2 of
                  (Inl e, w3) \<Rightarrow> (Inl e, w3)
                | (Inr mid, w3) \<Rightarrow> (Inr (), edit_issues_list (ids @ [mid]) w3))
          else (Inr (), edit_issues_list ids w2))"
  by (simp add: refresh_common_issues_def Let_def delete_old_pages_same)

lemma refresh_common_issues_succeeds:
  assumes "send_faults w = []"
  shows "\<exists>w'. refresh_common_issues w = (Inr (), w')"
proof -
  have f1: "send_faults (delete_old_pages w) = []" using assms by (simp add: delete_old_pages_same)
  from index_loop_succeeds[OF f1] obtain st w2 where
    l: "index_loop (guild_id w) (channel_id w) 0 (issues w) (u ''Table of Contents'')
              [] 0 [] (delete_old_pages w) = (Inr st, w2)" and f2: "send_faults w2 = []" by blast
  obtain ttl desc page ids where st: "st = (ttl, desc, page, ids)" by (cases st)
  obtain w3 where "send None (page_embed ttl desc (page + 1)) None w2 = (Inr (next_id w2), w3)"
    using send_succeeds[OF f2] by blast
  then show ?thesis unfolding refresh_common_issues_unfold l st by simp
qed

text \<open>
  With names of 10 characters a page holds at most 60 lines, so the stored list of page
  ids has at least one id for every 60 issues.
\<close>

lemma refresh_common_issues_count:
  assumes "refresh_common_issues w = (Inr (), w')"
    and "\<forall>i\<in>set (issues w). length (name i) = 10"
  shows "\<exists>ids. issues_list_msg w' = Some ids \<and> length (issues w) \<le> 60 * length ids"
proof -
  let ?loop = "index_loop (guild_id w) (channel_id w) 0 (issues w) (u ''Table of Contents'')
      [] 0 [] (delete_old_pages w)"
  let ?S = "set (index_lines (guild_id w) (channel_id w) 0 (issues w))"
  obtain r w2 where l: "?loop = (r, w2)" by (cases ?loop)
  show ?thesis
  proof (cases r)
    case (Inl e)
    then show ?thesis using assms(1) l unfolding refresh_common_issues_unfold by simp
  next
    case (Inr st)
    obtain ttl desc page ids where st: "st = (ttl, desc, page, ids)" by (cases st)
    have run: "?loop = (Inr (ttl, desc, page, ids), w2)" using l Inr st by simp
    have e0: "length ([]::ustr) \<le> 3072" by simp
    have e1: "([]::ustr) = [] \<or> (\<exists>q l. ([]::ustr) = q @ l \<and> l \<in> ?S)" by simp
    from index_loop_pages[OF run e0 subset_refl e1] obtain new where new:
      "channel w2 = channel (delete_old_pages w) @ new" "ids = [] @ map msg_id new"
      "page = 0 + length new" "length desc \<le> 3072"
      "desc = [] \<or> (\<exists>q l. desc = q @ l \<and> l \<in> ?S)"
      "\<forall>k<length new. \<exists>t q l. embeds (new ! k) = [page_embed t (q @ l) (0 + k + 1)]
          \<and> length q \<le> 3072 \<and> l \<in> ?S \<and> 3072 < length (q @ l)" by blast
    have pl: "page = length ids" using new(2,3) by simp
    have z: "0 * 52 \<le> length ([]::ustr)" by simp
    from index_loop_count[OF run index_lines_long[OF assms(2)] z e0] obtain c' where
      c': "c' * 52 \<le> length desc" "length (issues w) + 0 + 60 * 0 \<le> 60 * page + c'" by blast
    show ?thesis
    proof (cases "length desc > 0")
      case False
      then have w': "w' = edit_issues_list ids w2"
        using assms(1) run unfolding refresh_common_issues_unfold by simp
      have "c' = 0" using False c'(1) by simp
      then have "issues_list_msg w' = Some ids \<and> length (issues w) \<le> 60 * length ids"
        using c'(2) pl by (simp add: w' edit_issues_list_def)
      then show ?thesis by blast
    next
      case True
      obtain r3 w3 where s: "send None (page_embed ttl desc (page + 1)) None w2 = (r3, w3)"
        by (cases "send None (page_embed ttl desc (page + 1)) None w2")
      show ?thesis
      proof (cases r3)
        case (Inl e)
        then show ?thesis using assms(1) run True s unfolding refresh_common_issues_unfold by simp
      next
        case (Inr mid)
        then have w': "w' = edit_issues_list (ids @ [mid]) w3"
          using assms(1) run True s unfolding refresh_common_issues_unfold by simp
        have "c' \<le> 59" using c'(1) new(4) by simp
        then have "issues_list_msg w' = Some (ids @ [mid])
            \<and> length (issues w) \<le> 60 * length (ids @ [mid])"
          using c'(2) pl by (simp add: w' edit_issues_list_def)
        then show ?thesis by blast
      qed
    qed
  qed
qed

lemma world500_names: "\<forall>i\<in>set (issues world500). length (name i) = 10"
  by (simp add: world500_def issue_no_def u_def)

lemma world500_length: "length (issues world500) = 500"
  by (simp add: world500_def)

lemma world500_run:
  "refresh_common_issues world500 = (Inr (), snd (refresh_common_issues world500))"
proof -
  have "send_faults world500 = []" by (simp add: world500_def world0_def)
  from refresh_common_issues_succeeds[OF this] show ?thesis by auto
qed

lemma world500_nine:
  "\<exists>ids. issues_list_msg (snd (refresh_common_issues world500)) = Some ids \<and> 9 \<le> length ids"
proof -
  from refresh_common_issues_count[OF world500_run world500_names] obtain ids where
    "issues_list_msg (snd (refresh_common_issues world500)) = Some ids"
    "length (issues world500) \<le> 60 * length ids" by blast
  then show ?thesis using world500_length by auto
qed

lemma world500_start: "channel (delete_old_pages world500) = []"
  by (simp add: delete_old_pages_def world500_def world0_def)


text \<open>
  Claim C2, amended. Whenever the index rebuild ends without an exception, every page it
  has posted holds a buffer of at most 3072 characters followed by one more rendered
  line: the line is appended first and the buffer is flushed once it has gone beyond
  3072 characters, so every page but the last holds more than 3072 characters.
\<close>

theorem refresh_page_size:
  assumes "refresh_common_issues w = (Inr (), w')"
  shows "\<exists>new. channel w' = channel (delete_old_pages w) @ new
     \<and> (\<forall>k<length new. \<exists>e q l. embeds (new ! k) = [e] \<and> description e = q @ l
            \<and> length q \<le> 3072
            \<and> l \<in> set (index_lines (guild_id w) (channel_id w) 0 (issues w))
            \<and> (k + 1 < length new \<longrightarrow> 3072 < length (description e)))"
proof -
  from refresh_common_issues_pages[OF assms] obtain new where new:
    "channel w' = channel (delete_old_pages w) @ new"
    "\<forall>k<length new. \<exists>t q l. embeds (new ! k) = [page_embed t (q @ l) (k + 1)]
        \<and> length q \<le> 3072
        \<and> l \<in> set (index_lines (guild_id w) (channel_id w) 0 (issues w))
        \<and> (k + 1 < length new \<longrightarrow> 3072 < length (q @ l))" by blast
  have "\<forall>k<length new. \<exists>e q l. embeds (new ! k) = [e] \<and> description e = q @ l
            \<and> length q \<le> 3072
            \<and> l \<in> set (index_lines (guild_id w) (channel_id w) 0 (issues w))
            \<and> (k + 1 < length new \<longrightarrow> 3072 < length (description e))"
  proof (intro allI impI)
    fix k assume "k < length new"
    with new(2) obtain t q l where h: "embeds (new ! k) = [page_embed t (q @ l) (k + 1)]"
      "length q \<le> 3072" "l \<in> set (index_lines (guild_id w) (channel_id w) 0 (issues w))"
      "k + 1 < length new \<longrightarrow> 3072 < length (q @ l)" by blast
    have "description (page_embed t (q @ l) (k + 1)) = q @ l" by (simp add: page_embed_def)
    then show "\<exists>e q l. embeds (new ! k) = [e] \<and> description e = q @ l
            \<and> length q \<le> 3072
            \<and> l \<in> set (index_lines (guild_id w) (channel_id w) 0 (issues w))
            \<and> (k + 1 < length new \<longrightarrow> 3072 < length (description e))"
      using h by metis
  qed
  then show ?thesis using new(1) by blast
qed

theorem refresh_page_size_witness:
  "refresh_common_issues world500 = (Inr (), snd (refresh_common_issues world500))
   \<and> (\<exists>new. channel (snd (refresh_common_issues world500)) = channel (delete_old_pages world500) @ new
     \<and> (\<forall>k<length new. \<exists>e q l. embeds (new ! k) = [e] \<and> description e = q @ l
            \<and> length q \<le> 3072
            \<and> l \<in> set (index_lines (guild_id world500) (channel_id world500) 0 (issues world500))
            \<and> (k + 1 < length new \<longrightarrow> 3072 < length (description e))))"
  using refresh_page_size [OF world500_run] world500_run by blast

text \<open>
  The claim as stated fails for the guild of 500 issues: the first page of its index
  holds more than 3072 characters.
\<close>

theorem refresh_page_size_counterexample:
  "3072 < length (description (hd (embeds (hd (channel (snd (refresh_common_issues world500)))))))"
proof -
  from refresh_common_issues_pages[OF world500_run] obtain new where new:
    "channel (snd (refresh_common_issues world500)) = channel (delete_old_pages world500) @ new"
    "issues_list_msg (snd (refresh_common_issues world500)) = Some (map msg_id new)"
    "\<forall>k<length new. \<exists>t q l. embeds (new ! k) = [page_embed t (q @ l) (k + 1)]
        \<and> length q \<le> 3072
        \<and> l \<in> set (index_lines (guild_id world500) (channel_id world500) 0 (issues world500))
        \<and> (k + 1 < length new \<longrightarrow> 3072 < length (q @ l))" by blast
  from world500_nine new(2) have n9: "9 \<le> length new" by auto
  then have "0 < length new" "0 + 1 < length new" by linarith+
  with new(3) obtain t q l where h: "embeds (new ! 0) = [page_embed t (q @ l) (0 + 1)]"
    "3072 < length (q @ l)" by blast
  have "length new \<noteq> 0" using n9 by linarith
  then have "new \<noteq> []" by simp
  then obtain m rest where mr: "new = m # rest" by (cases new) simp_all
  have "hd (channel (snd (refresh_common_issues world500))) = new ! 0"
    unfolding new(1) world500_start mr by simp
  then show ?thesis using h by (simp add: page_embed_def)
qed

text \<open>
  Claim C1, amended. For an issue store holding exactly 500 issues whose names are each
  10 characters, an index rebuild that ends without an exception posts at least 9
  pages, never 3: a rendered line holds the hyperlink too and has 52 characters or
  more, so a page has room for at most 60 lines. The footers of the pages carry the page
  numbers 1, 2, 3, ... in the order of posting, and the persisted list of message ids
  is the list of the ids of these pages, of the same length.
\<close>

theorem refresh_500_issues:
  assumes "refresh_common_issues w = (Inr (), w')" and "length (issues w) = 500"
    and "\<forall>i\<in>set (issues w). length (name i) = 10"
  shows "\<exists>new. channel w' = channel (delete_old_pages w) @ new \<and> 9 \<le> length new
     \<and> issues_list_msg w' = Some (map msg_id new)
     \<and> (\<forall>k<length new. \<exists>e. embeds (new ! k) = [e]
            \<and> footer_text e = Some (u ''Page '' @ str_int (int k + 1)))"
proof -
  from refresh_common_issues_pages[OF assms(1)] obtain new where new:
    "channel w' = channel (delete_old_pages w) @ new"
    "issues_list_msg w' = Some (map msg_id new)"
    "\<forall>k<length new. \<exists>t q l. embeds (new ! k) = [page_embed t (q @ l) (k + 1)]
        \<and> length q \<le> 3072
        \<and> l \<in> set (index_lines (guild_id w) (channel_id w) 0 (issues w))
        \<and> (k + 1 < length new \<longrightarrow> 3072 < length (q @ l))" by blast
  from refresh_common_issues_count[OF assms(1,3)] new(2) assms(2)
  have n9: "9 \<le> length new" by auto
  have "\<forall>k<length new. \<exists>e. embeds (new ! k) = [e]
            \<and> footer_text e = Some (u ''Page '' @ str_int (int k + 1))"
  proof (intro allI impI)
    fix k assume "k < length new"
    with new(3) obtain t q l where "embeds (new ! k) = [page_embed t (q @ l) (k + 1)]" by blast
    moreover have "footer_text (page_embed t (q @ l) (k + 1))
        = Some (u ''Page '' @ str_int (int k + 1))"
      by (simp add: page_embed_def add.commute)
    ultimately show "\<exists>e. embeds (new ! k) = [e]
            \<and> footer_text e = Some (u ''Page '' @ str_int (int k + 1))" by blast
  qed
  then show ?thesis using new(1,2) n9 by blast
qed

theorem refresh_500_issues_witness:
  "refresh_common_issues world500 = (Inr (), snd (refresh_common_issues world500))
   \<and> length (issues world500) = 500
   \<and> list_all (\<lambda>i. length (name i) = 10) (issues world500)
   \<and> (\<exists>new. channel (snd (refresh_common_issues world500)) = channel (delete_old_pages world500) @ new
        \<and> 9 \<le> length new
        \<and> issues_list_msg (snd (refresh_common_issues world500)) = Some (map msg_id new)
        \<and> (\<forall>k<length new. \<exists>e. embeds (new ! k) = [e]
               \<and> footer_text e = Some (u ''Page '' @ str_int (int k + 1))))"
  unfolding list_all_iff
  using refresh_500_issues [OF world500_run world500_length world500_names]
    world500_run world500_length world500_names by blast

text \<open>
  The claim as stated fails for the guild of 500 issues: the persisted list of page ids
  does not have length 3.
\<close>

theorem refresh_500_issues_counterexample:
  "map_option length (issues_list_msg (snd (refresh_common_issues world500))) \<noteq> Some 3"
  using world500_nine by auto


section \<open>The reindex: properties\<close>

lemma send_Inr:
  assumes "send f e v w = (Inr mid, w2)"
  shows "mid = next_id w \<and> next_id w2 = next_id w + 1 \<and> issues w2 = issues w"
  using assms by (auto simp add: send_def Let_def split: if_splits)

lemma edit_issue_distinct:
  assumes "distinct (map name (pre @ i # rest))" and "name i' = name i"
  shows "map (\<lambda>j. if name j = name i' then i' else j) (pre @ i # rest) = pre @ i' # rest"
proof -
  have "name i \<notin> set (map name pre)" "name i \<notin> set (map name rest)"
    using assms(1) by simp_all
  then have p: "\<forall>j\<in>set pre. name j \<noteq> name i" and r: "\<forall>j\<in>set rest. name j \<noteq> name i"
    by (metis imageI list.set_map)+
  have "map (\<lambda>j. if name j = name i' then i' else j) pre = pre"
    using p assms(2) by (intro map_idI) simp
  moreover have "map (\<lambda>j. if name j = name i' then i' else j) rest = rest"
    using r assms(2) by (intro map_idI) simp
  ultimately show ?thesis using assms(2) by simp
qed

lemma reindex_loop_step:
  assumes "reindex_loop L (i # rest) w = (Inr (), w')"
  shows "\<exists>w2. reindex_loop L rest (edit_issue (i\<lparr>message_id := Some (next_id w)\<rparr>) w2) = (Inr (), w')
     \<and> issues w2 = issues w \<and> next_id w2 = next_id w + 1"
proof -
  define w1 where "w1 = try_delete (message_id i) w"
  have f1: "issues w1 = issues w" "next_id w1 = next_id w"
    unfolding w1_def using try_delete_frame[of "message_id i" w] try_delete_same[of "message_id i" w]
    by simp_all
  show ?thesis
  proof (cases "prepare_issue_embed L (files w1) i")
    case (Inl e)
    then show ?thesis using assms by (simp add: w1_def[symmetric] Let_def)
  next
    case (Inr em)
    obtain r w2 where s: "send (issue_file (files w1) i) em (prepare_issue_view L i) w1 = (r, w2)"
      by (cases "send (issue_file (files w1) i) em (prepare_issue_view L i) w1")
    show ?thesis
    proof (cases r)
      case (Inl e)
      then show ?thesis using assms Inr s by (simp add: w1_def[symmetric] Let_def)
    next
      case (Inr mid)
      from s Inr send_Inr[of "issue_file (files w1) i" em "prepare_issue_view L i" w1 mid w2]
      have m: "mid = next_id w" "next_id w2 = next_id w + 1" "issues w2 = issues w"
        using f1 by simp_all
      have "reindex_loop L rest (edit_issue (i\<lparr>message_id := Some mid\<rparr>) w2) = (Inr (), w')"
        using assms \<open>prepare_issue_embed L (files w1) i = Inr em\<close> s Inr
        by (simp add: w1_def[symmetric] Let_def)
      then show ?thesis using m by blast
    qed
  qed
qed

lemma reindex_loop_issues:
  assumes "reindex_loop L xs w = (Inr (), w')" and "issues w = pre @ xs"
    and "distinct (map name (pre @ xs))"
  shows "issues w' = pre @ map2 (\<lambda>i m. i\<lparr>message_id := Some m\<rparr>) xs
                               [next_id w..next_id w + int (length xs) - 1]
     \<and> next_id w' = next_id w + int (length xs)"
  using assms
proof (induction xs arbitrary: w pre)
  case Nil
  then show ?case by simp
next
  case (Cons i rest)
  let ?i' = "i\<lparr>message_id := Some (next_id w)\<rparr>"
  from reindex_loop_step[OF Cons.prems(1)] obtain w2 where
    l: "reindex_loop L rest (edit_issue ?i' w2) = (Inr (), w')"
    and f: "issues w2 = issues w" "next_id w2 = next_id w + 1" by blast
  have n: "name ?i' = name i" by simp
  have e: "issues (edit_issue ?i' w2) = (pre @ [?i']) @ rest"
    using edit_issue_distinct[OF Cons.prems(3) n] f(1) Cons.prems(2) by (simp add: edit_issue_def)
  have d: "distinct (map name ((pre @ [?i']) @ rest))" using Cons.prems(3) by simp
  have nx: "next_id (edit_issue ?i' w2) = next_id w + 1" using f(2) by (simp add: edit_issue_def)
  from Cons.IH[OF l e d] have ih:
    "issues w' = (pre @ [?i']) @ map2 (\<lambda>i m. i\<lparr>message_id := Some m\<rparr>) rest
        [next_id w + 1..next_id w + 1 + int (length rest) - 1]"
    "next_id w' = next_id w + 1 + int (length rest)" unfolding nx by simp_all
  have u: "[next_id w..next_id w + int (length (i # rest)) - 1]
      = next_id w # [next_id w + 1..next_id w + 1 + int (length rest) - 1]"
    by (simp add: upto_rec1)
  show ?case unfolding u using ih by simp
qed

lemma reindex_loop_nth:
  assumes "reindex_loop L (issues w) w = (Inr (), w')" and "distinct (map name (issues w))"
  shows "length (issues w') = length (issues w)
     \<and> (\<forall>k<length (issues w). issues w' ! k = (issues w ! k)\<lparr>message_id := Some (next_id w + int k)\<rparr>)"
proof -
  from reindex_loop_issues[of L "issues w" w w' "[]"] assms
  have i: "issues w' = map2 (\<lambda>i m. i\<lparr>message_id := Some m\<rparr>) (issues w)
                               [next_id w..next_id w + int (length (issues w)) - 1]" by simp
  have l: "length [next_id w..next_id w + int (length (issues w)) - 1] = length (issues w)"
    by simp
  have "\<forall>k<length (issues w). issues w' ! k = (issues w ! k)\<lparr>message_id := Some (next_id w + int k)\<rparr>"
  proof (intro allI impI)
    fix k assume k: "k < length (issues w)"
    then have "[next_id w..next_id w + int (length (issues w)) - 1] ! k = next_id w + int k"
      by (intro nth_upto) simp
    then show "issues w' ! k = (issues w ! k)\<lparr>message_id := Some (next_id w + int k)\<rparr>"
      unfolding i using k l by simp
  qed
  moreover have "length (issues w') = length (issues w)" unfolding i using l by simp
  ultimately show ?thesis by blast
qed

lemma do_reindex_Inr:
  assumes "do_reindex L w = (Inr (), w')"
  shows "\<exists>w1. reindex_loop L (issues w) w = (Inr (), w1) \<and> issues w' = issues w1"
proof -
  from assms have "then_do (reindex_loop L (issues w))
       (\<lambda>_. then_do refresh_common_issues
          (\<lambda>_. upd (\<lambda>v. v\<lparr>followups := followups v @ [u ''Reindexed!'']\<rparr>))) w = (Inr (), w')"
    by (simp add: do_reindex_def)
  from then_do_Inr[OF this] obtain a w1 where
    l: "reindex_loop L (issues w) w = (Inr a, w1)"
    and b: "then_do refresh_common_issues
          (\<lambda>_. upd (\<lambda>v. v\<lparr>followups := followups v @ [u ''Reindexed!'']\<rparr>)) w1 = (Inr (), w')"
    by blast
  from then_do_Inr[OF b] obtain c w2 where
    r: "refresh_common_issues w1 = (Inr c, w2)"
    and f: "upd (\<lambda>v. v\<lparr>followups := followups v @ [u ''Reindexed!'']\<rparr>) w2 = (Inr (), w')"
    by blast
  have "issues w2 = issues w1" using refresh_common_issues_frame[of w1] r by simp
  moreover have "issues w' = issues w2" using f by (auto simp add: upd_def)
  ultimately show ?thesis using l by simp
qed

lemma reindex_loop_succeeds:
  assumes "send_faults w = []" and "\<forall>i\<in>set xs. color i \<noteq> None"
  shows "\<exists>w'. reindex_loop L xs w = (Inr (), w') \<and> send_faults w' = []"
  using assms
proof (induction xs arbitrary: w)
  case Nil
  then show ?case by simp
next
  case (Cons i rest)
  define w1 where "w1 = try_delete (message_id i) w"
  have f1: "send_faults w1 = []"
    unfolding w1_def using try_delete_same[of "message_id i" w] Cons.prems(1) by simp
  from Cons.prems(2) obtain c where c: "color i = Some c" by auto
  then obtain em where em: "prepare_issue_embed L (files w1) i = Inr em"
    by (simp add: prepare_issue_embed_def Color_value_def)
  from send_succeeds[OF f1] obtain w2 where
    s: "send (issue_file (files w1) i) em (prepare_issue_view L i) w1 = (Inr (next_id w1), w2)"
    and f2: "send_faults w2 = []" by blast
  have f3: "send_faults (edit_issue (i\<lparr>message_id := Some (next_id w1)\<rparr>) w2) = []"
    using f2 by (simp add: edit_issue_def)
  from Cons.IH[OF f3] Cons.prems(2) obtain w' where
    "reindex_loop L rest (edit_issue (i\<lparr>message_id := Some (next_id w1)\<rparr>) w2) = (Inr (), w')"
    "send_faults w' = []" by auto
  then show ?case using em s by (simp add: w1_def[symmetric] Let_def)
qed

lemma do_reindex_succeeds:
  assumes "send_faults w = []" and "\<forall>i\<in>set (issues w). color i \<noteq> None"
  shows "\<exists>w'. do_reindex L w = (Inr (), w')"
proof -
  from reindex_loop_succeeds[OF assms(1), of "issues w" L] assms(2) obtain w1 where
    l: "reindex_loop L (issues w) w = (Inr (), w1)" and f: "send_faults w1 = []" by blast
  from refresh_common_issues_succeeds[OF f] obtain w2 where
    r: "refresh_common_issues w1 = (Inr (), w2)" by blast
  show ?thesis by (simp add: do_reindex_def then_do_def l r upd_def)
qed

lemma issue_no_fields:
  "color (issue_no k) = Some 16711680" "message_id (issue_no k) = Some (int k)"
  by (simp_all add: issue_no_def issue0_def)

lemma issue_no_names: "distinct (map name [issue_no 0, issue_no 1])"
  by (simp add: issue_no_def)

text \<open>
  The messages that a reindex posts stay in the channel: a later pass deletes only the old
  message of its issue, and the index rebuild only the old pages.
\<close>

lemma fetch_message_keeps:
  "channel (snd (fetch_message mid w)) = channel w
   \<and> issues_list_msg (snd (fetch_message mid w)) = issues_list_msg w"
  by (simp add: fetch_message_def Let_def split: option.splits)

lemma fetch_message_found:
  assumes "fetch_message mid w = (Inr x, w1)"
  shows "mid = Some (msg_id x)"
proof -
  from assms obtain m where m: "mid = Some m" "find (\<lambda>x. msg_id x = m) (channel w) = Some x"
    by (auto simp add: fetch_message_def Let_def split: if_splits option.splits)
  then have "msg_id x = m" by (auto simp add: find_Some_iff)
  then show ?thesis using m(1) by simp
qed

lemma delete_message_keeps:
  "issues_list_msg (snd (delete_message x w)) = issues_list_msg w"
  "m \<in> set (channel w) \<Longrightarrow> msg_id m \<noteq> msg_id x \<Longrightarrow> m \<in> set (channel (snd (delete_message x w)))"
  by (simp_all add: delete_message_def Let_def)

lemma try_delete_keeps:
  "issues_list_msg (try_delete mid w) = issues_list_msg w"
  "m \<in> set (channel w) \<Longrightarrow> mid \<noteq> Some (msg_id m) \<Longrightarrow> m \<in> set (channel (try_delete mid w))"
proof -
  obtain r w1 where f: "fetch_message mid w = (r, w1)" by (cases "fetch_message mid w")
  have k: "channel w1 = channel w" "issues_list_msg w1 = issues_list_msg w"
    using fetch_message_keeps[of mid w] f by simp_all
  show "issues_list_msg (try_delete mid w) = issues_list_msg w"
    using f k delete_message_keeps(1) by (cases r) (simp_all add: try_delete_def)
  show "m \<in> set (channel (try_delete mid w))"
    if a: "m \<in> set (channel w)" "mid \<noteq> Some (msg_id m)"
  proof (cases r)
    case (Inl e)
    then show ?thesis using f k a by (simp add: try_delete_def)
  next
    case (Inr x)
    then have "mid = Some (msg_id x)" using f fetch_message_found by blast
    then have "msg_id m \<noteq> msg_id x" using a(2) by auto
    then have "m \<in> set (channel (snd (delete_message x w1)))"
      using delete_message_keeps(2)[of m w1 x] a(1) k(1) by simp
    then show ?thesis using f Inr by (simp add: try_delete_def)
  qed
qed

lemma delete_old_keeps:
  assumes "m \<in> set (channel w)" and "msg_id m \<notin> set old"
  shows "m \<in> set (channel (delete_old old w))"
  using assms
proof (induction old arbitrary: w)
  case Nil
  then show ?case by simp
next
  case (Cons i rest)
  have "m \<in> set (channel (try_delete (Some i) w))"
    using try_delete_keeps(2)[of m w "Some i"] Cons.prems by auto
  then show ?case using Cons.IH Cons.prems(2) by simp
qed

lemma send_posts:
  assumes "send f e v w = (Inr mid, w2)"
  shows "channel w2 = channel w @ [\<lparr>msg_id = next_id w, author_bot = True, embeds = [e],
                     components = view_components v,
                     attachments = (case f of None \<Rightarrow> [] | Some a \<Rightarrow> [a])\<rparr>]
     \<and> issues_list_msg w2 = issues_list_msg w"
  using assms by (auto simp add: send_def Let_def split: if_splits)

lemma prepare_issue_embed_title:
  assumes "prepare_issue_embed L fs i = Inr em"
  shows "title em = name i"
  using assms by (auto simp add: prepare_issue_embed_def split: sum.splits)

lemma reindex_loop_step_channel:
  assumes "reindex_loop L (i # rest) w = (Inr (), w')"
  shows "\<exists>w2 msg. reindex_loop L rest (edit_issue (i\<lparr>message_id := Some (next_id w)\<rparr>) w2) = (Inr (), w')
     \<and> next_id w2 = next_id w + 1 \<and> issues_list_msg w2 = issues_list_msg w
     \<and> msg \<in> set (channel w2) \<and> msg_id msg = next_id w
     \<and> (\<exists>e. embeds msg = [e] \<and> title e = name i)
     \<and> (\<forall>m\<in>set (channel w). message_id i \<noteq> Some (msg_id m) \<longrightarrow> m \<in> set (channel w2))"
proof -
  define w1 where "w1 = try_delete (message_id i) w"
  have f1: "next_id w1 = next_id w" "issues_list_msg w1 = issues_list_msg w"
    unfolding w1_def using try_delete_same[of "message_id i" w] try_delete_keeps(1)[of "message_id i" w]
    by simp_all
  have k1: "\<forall>m\<in>set (channel w). message_id i \<noteq> Some (msg_id m) \<longrightarrow> m \<in> set (channel w1)"
    unfolding w1_def using try_delete_keeps(2)[of _ w "message_id i"] by blast
  show ?thesis
  proof (cases "prepare_issue_embed L (files w1) i")
    case (Inl e)
    then show ?thesis using assms by (simp add: w1_def[symmetric] Let_def)
  next
    case (Inr em)
    obtain r w2 where s: "send (issue_file (files w1) i) em (prepare_issue_view L i) w1 = (r, w2)"
      by (cases "send (issue_file (files w1) i) em (prepare_issue_view L i) w1")
    show ?thesis
    proof (cases r)
      case (Inl e)
      then show ?thesis using assms Inr s by (simp add: w1_def[symmetric] Let_def)
    next
      case (Inr mid)
      let ?msg = "\<lparr>msg_id = next_id w1, author_bot = True, embeds = [em],
                     components = view_components (prepare_issue_view L i),
                     attachments = (case issue_file (files w1) i of None \<Rightarrow> [] | Some a \<Rightarrow> [a])\<rparr>"
      from s Inr have s': "send (issue_file (files w1) i) em (prepare_issue_view L i) w1 = (Inr mid, w2)"
        by simp
      from send_Inr[OF s'] have m: "mid = next_id w" "next_id w2 = next_id w + 1"
        using f1 by simp_all
      from send_posts[OF s'] have c: "channel w2 = channel w1 @ [?msg]"
        and il: "issues_list_msg w2 = issues_list_msg w" using f1 by simp_all
      have l: "reindex_loop L rest (edit_issue (i\<lparr>message_id := Some (next_id w)\<rparr>) w2) = (Inr (), w')"
        using assms \<open>prepare_issue_embed L (files w1) i = Inr em\<close> s' m(1)
        by (simp add: w1_def[symmetric] Let_def)
      have t: "title em = name i"
        using prepare_issue_embed_title[OF \<open>prepare_issue_embed L (files w1) i = Inr em\<close>] .
      have p1: "?msg \<in> set (channel w2)" unfolding c by simp
      have p2: "msg_id ?msg = next_id w" using f1 by simp
      have p3: "\<exists>e. embeds ?msg = [e] \<and> title e = name i" using t by simp
      have p4: "\<forall>m\<in>set (channel w). message_id i \<noteq> Some (msg_id m) \<longrightarrow> m \<in> set (channel w2)"
        using k1 unfolding c by simp
      show ?thesis using l m(2) il p1 p2 p3 p4 by blast
    qed
  qed
qed

lemma edit_issue_keeps:
  "channel (edit_issue i w) = channel w" "next_id (edit_issue i w) = next_id w"
  "issues_list_msg (edit_issue i w) = issues_list_msg w"
  by (simp_all add: edit_issue_def)

lemma reindex_loop_list_msg:
  assumes "reindex_loop L xs w = (Inr (), w')"
  shows "issues_list_msg w' = issues_list_msg w \<and> next_id w' = next_id w + int (length xs)"
  using assms
proof (induction xs arbitrary: w)
  case Nil
  then show ?case by simp
next
  case (Cons i rest)
  from reindex_loop_step_channel[OF Cons.prems] obtain w2 where
    l: "reindex_loop L rest (edit_issue (i\<lparr>message_id := Some (next_id w)\<rparr>) w2) = (Inr (), w')"
    and f: "next_id w2 = next_id w + 1" "issues_list_msg w2 = issues_list_msg w" by blast
  from Cons.IH[OF l] show ?case using f by (simp add: edit_issue_keeps)
qed

lemma reindex_loop_keeps:
  assumes "reindex_loop L xs w = (Inr (), w')" and "m \<in> set (channel w)"
    and "\<forall>i\<in>set xs. message_id i \<noteq> Some (msg_id m)"
  shows "m \<in> set (channel w')"
  using assms
proof (induction xs arbitrary: w)
  case Nil
  then show ?case by simp
next
  case (Cons i rest)
  from reindex_loop_step_channel[OF Cons.prems(1)] obtain w2 where
    l: "reindex_loop L rest (edit_issue (i\<lparr>message_id := Some (next_id w)\<rparr>) w2) = (Inr (), w')"
    and k: "\<forall>m\<in>set (channel w). message_id i \<noteq> Some (msg_id m) \<longrightarrow> m \<in> set (channel w2)"
    by blast
  have "m \<in> set (channel w2)" using k Cons.prems(2,3) by simp
  then have "m \<in> set (channel (edit_issue (i\<lparr>message_id := Some (next_id w)\<rparr>) w2))"
    by (simp add: edit_issue_keeps)
  from Cons.IH[OF l this] show ?case using Cons.prems(3) by simp
qed

lemma reindex_loop_posted:
  assumes "reindex_loop L xs w = (Inr (), w')"
    and "\<forall>i\<in>set xs. \<forall>m. message_id i = Some m \<longrightarrow> m < next_id w"
  shows "\<forall>k<length xs. \<exists>m\<in>set (channel w'). msg_id m = next_id w + int k
            \<and> (\<exists>e. embeds m = [e] \<and> title e = name (xs ! k))"
  using assms
proof (induction xs arbitrary: w)
  case Nil
  then show ?case by simp
next
  case (Cons i rest)
  let ?w3 = "\<lambda>w2. edit_issue (i\<lparr>message_id := Some (next_id w)\<rparr>) w2"
  from reindex_loop_step_channel[OF Cons.prems(1)] obtain w2 msg where
    l: "reindex_loop L rest (?w3 w2) = (Inr (), w')"
    and n: "next_id w2 = next_id w + 1"
    and p: "msg \<in> set (channel w2)" "msg_id msg = next_id w"
      "\<exists>e. embeds msg = [e] \<and> title e = name i" by blast
  have old: "\<forall>j\<in>set rest. \<forall>m. message_id j = Some m \<longrightarrow> m < next_id w"
    using Cons.prems(2) by simp
  have p0: "msg \<in> set (channel (?w3 w2))" using p(1) by (simp add: edit_issue_keeps)
  have "\<forall>j\<in>set rest. message_id j \<noteq> Some (msg_id msg)" using old p(2) by force
  from reindex_loop_keeps[OF l p0 this] have m0: "msg \<in> set (channel w')" .
  have n3: "next_id (?w3 w2) = next_id w + 1" using n by (simp add: edit_issue_keeps)
  have "\<forall>j\<in>set rest. \<forall>m. message_id j = Some m \<longrightarrow> m < next_id (?w3 w2)"
    unfolding n3 using old by force
  from Cons.IH[OF l this] have ih:
    "\<forall>k<length rest. \<exists>m\<in>set (channel w'). msg_id m = next_id w + 1 + int k
            \<and> (\<exists>e. embeds m = [e] \<and> title e = name (rest ! k))" unfolding n3 .
  show ?case
  proof (intro allI impI)
    fix k assume k: "k < length (i # rest)"
    show "\<exists>m\<in>set (channel w'). msg_id m = next_id w + int k
            \<and> (\<exists>e. embeds m = [e] \<and> title e = name ((i # rest) ! k))"
    proof (cases k)
      case 0
      then show ?thesis using m0 p(2,3) by auto
    next
      case (Suc k')
      then have "k' < length rest" using k by simp
      with ih obtain m where m: "m \<in> set (channel w')" "msg_id m = next_id w + 1 + int k'"
        "\<exists>e. embeds m = [e] \<and> title e = name (rest ! k')" by blast
      have "msg_id m = next_id w + int k" using m(2) Suc by simp
      moreover have "(i # rest) ! k = rest ! k'" using Suc by simp
      ultimately show ?thesis using m(1,3) by metis
    qed
  qed
qed

lemma do_reindex_Inr_channel:
  assumes "do_reindex L w = (Inr (), w')"
  shows "\<exists>w1 w2. reindex_loop L (issues w) w = (Inr (), w1)
     \<and> refresh_common_issues w1 = (Inr (), w2) \<and> channel w' = channel w2"
proof -
  from assms have "then_do (reindex_loop L (issues w))
       (\<lambda>_. then_do refresh_common_issues
          (\<lambda>_. upd (\<lambda>v. v\<lparr>followups := followups v @ [u ''Reindexed!'']\<rparr>))) w = (Inr (), w')"
    by (simp add: do_reindex_def)
  from then_do_Inr[OF this] obtain a w1 where
    l: "reindex_loop L (issues w) w = (Inr a, w1)"
    and b: "then_do refresh_common_issues
          (\<lambda>_. upd (\<lambda>v. v\<lparr>followups := followups v @ [u ''Reindexed!'']\<rparr>)) w1 = (Inr (), w')"
    by blast
  from then_do_Inr[OF b] obtain c w2 where
    r: "refresh_common_issues w1 = (Inr c, w2)"
    and f: "upd (\<lambda>v. v\<lparr>followups := followups v @ [u ''Reindexed!'']\<rparr>) w2 = (Inr (), w')"
    by blast
  have "channel w' = channel w2" using f by (auto simp add: upd_def)
  then show ?thesis using l r by simp
qed

lemma do_reindex_posted:
  assumes "do_reindex L w = (Inr (), w')"
    and "\<forall>i\<in>set (issues w). \<forall>m. message_id i = Some m \<longrightarrow> m < next_id w"
    and "\<forall>ids. issues_list_msg w = Some ids \<longrightarrow> (\<forall>m\<in>set ids. m < next_id w)"
  shows "\<forall>k<length (issues w). \<exists>m\<in>set (channel w'). msg_id m = next_id w + int k
            \<and> (\<exists>e. embeds m = [e] \<and> title e = name (issues w ! k))"
proof (intro allI impI)
  fix k assume k: "k < length (issues w)"
  from do_reindex_Inr_channel[OF assms(1)] obtain w1 w2 where
    l: "reindex_loop L (issues w) w = (Inr (), w1)"
    and r: "refresh_common_issues w1 = (Inr (), w2)" and c: "channel w' = channel w2" by blast
  from reindex_loop_posted[OF l assms(2)] k obtain m where
    m: "m \<in> set (channel w1)" "msg_id m = next_id w + int k"
    "\<exists>e. embeds m = [e] \<and> title e = name (issues w ! k)" by blast
  have il: "issues_list_msg w1 = issues_list_msg w" using reindex_loop_list_msg[OF l] by simp
  have "m \<in> set (channel (delete_old_pages w1))"
  proof (cases "issues_list_msg w")
    case None
    then show ?thesis using m(1) il by (simp add: delete_old_pages_def)
  next
    case (Some ids)
    then have "\<forall>x\<in>set ids. x < next_id w" using assms(3) by simp
    then have "msg_id m \<notin> set ids" using m(2) by force
    from delete_old_keeps[OF m(1) this] show ?thesis using Some il
      by (simp add: delete_old_pages_def)
  qed
  moreover from refresh_common_issues_pages[OF r] obtain new where
    "channel w2 = channel (delete_old_pages w1) @ new" by blast
  ultimately have "m \<in> set (channel w')" using c by simp
  then show "\<exists>m\<in>set (channel w'). msg_id m = next_id w + int k
            \<and> (\<exists>e. embeds m = [e] \<and> title e = name (issues w ! k))"
    using m(2,3) by blast
qed

text \<open>
  Claim C8. When a reindex batch completes, the store holds the same issues in the same
  order, each with every field as before (among them \<open>name\<close>, \<open>content\<close>, \<open>color\<close> and
  \<open>button_links\<close>) except \<open>message_id\<close>, which differs from the id it had: it is the id
  of the message that this run has posted for the issue, a message of the channel whose
  embed has the issue's name as its title (the \<open>k\<close>-th issue gets the \<open>k\<close>-th fresh id).
  The names of the stored issues are distinct, and the ids stored before the run, of
  issue messages and of index pages, are ids of older messages.
\<close>

theorem do_reindex_renews_message_ids:
  assumes "do_reindex L w = (Inr (), w')" and "distinct (map name (issues w))"
    and "\<forall>i\<in>set (issues w). \<forall>m. message_id i = Some m \<longrightarrow> m < next_id w"
    and "\<forall>ids. issues_list_msg w = Some ids \<longrightarrow> (\<forall>m\<in>set ids. m < next_id w)"
  shows "length (issues w') = length (issues w)
     \<and> (\<forall>k<length (issues w).
          issues w' ! k = (issues w ! k)\<lparr>message_id := Some (next_id w + int k)\<rparr>
          \<and> message_id (issues w' ! k) \<noteq> message_id (issues w ! k)
          \<and> name (issues w' ! k) = name (issues w ! k)
          \<and> content (issues w' ! k) = content (issues w ! k)
          \<and> color (issues w' ! k) = color (issues w ! k)
          \<and> button_links (issues w' ! k) = button_links (issues w ! k)
          \<and> (\<exists>m\<in>set (channel w'). Some (msg_id m) = message_id (issues w' ! k)
                \<and> (\<exists>e. embeds m = [e] \<and> title e = name (issues w ! k))))"
proof -
  from do_reindex_Inr[OF assms(1)] obtain w1 where
    l: "reindex_loop L (issues w) w = (Inr (), w1)" and i: "issues w' = issues w1" by blast
  from reindex_loop_nth[OF l assms(2)] have
    n: "length (issues w1) = length (issues w)"
    "\<forall>k<length (issues w). issues w1 ! k = (issues w ! k)\<lparr>message_id := Some (next_id w + int k)\<rparr>"
    by simp_all
  note p = do_reindex_posted[OF assms(1,3,4)]
  have "\<forall>k<length (issues w).
          issues w' ! k = (issues w ! k)\<lparr>message_id := Some (next_id w + int k)\<rparr>
          \<and> message_id (issues w' ! k) \<noteq> message_id (issues w ! k)
          \<and> name (issues w' ! k) = name (issues w ! k)
          \<and> content (issues w' ! k) = content (issues w ! k)
          \<and> color (issues w' ! k) = color (issues w ! k)
          \<and> button_links (issues w' ! k) = button_links (issues w ! k)
          \<and> (\<exists>m\<in>set (channel w'). Some (msg_id m) = message_id (issues w' ! k)
                \<and> (\<exists>e. embeds m = [e] \<and> title e = name (issues w ! k)))"
  proof (intro allI impI)
    fix k assume k: "k < length (issues w)"
    then have e: "issues w' ! k = (issues w ! k)\<lparr>message_id := Some (next_id w + int k)\<rparr>"
      using n(2) i by simp
    have "issues w ! k \<in> set (issues w)" using k by simp
    then have "\<forall>m. message_id (issues w ! k) = Some m \<longrightarrow> m < next_id w"
      using assms(3) by blast
    then have d: "message_id (issues w ! k) \<noteq> Some (next_id w + int k)" by force
    from p k obtain m where m: "m \<in> set (channel w')" "msg_id m = next_id w + int k"
      "\<exists>e. embeds m = [e] \<and> title e = name (issues w ! k)" by blast
    have "\<exists>m\<in>set (channel w'). Some (msg_id m) = Some (next_id w + int k)
                \<and> (\<exists>e. embeds m = [e] \<and> title e = name (issues w ! k))"
      using m by blast
    then show "issues w' ! k = (issues w ! k)\<lparr>message_id := Some (next_id w + int k)\<rparr>
          \<and> message_id (issues w' ! k) \<noteq> message_id (issues w ! k)
          \<and> name (issues w' ! k) = name (issues w ! k)
          \<and> content (issues w' ! k) = content (issues w ! k)
          \<and> color (issues w' ! k) = color (issues w ! k)
          \<and> button_links (issues w' ! k) = button_links (issues w ! k)
          \<and> (\<exists>m\<in>set (channel w'). Some (msg_id m) = message_id (issues w' ! k)
                \<and> (\<exists>e. embeds m = [e] \<and> title e = name (issues w ! k)))"
      unfolding e using d by simp
  qed
  moreover have "length (issues w') = length (issues w)" using n(1) i by simp
  ultimately show ?thesis by blast
qed

theorem do_reindex_renews_message_ids_witness:
  "do_reindex lib0 world2 = (Inr (), snd (do_reindex lib0 world2))
   \<and> distinct (map name (issues world2))
   \<and> list_all (\<lambda>i. case message_id i of None \<Rightarrow> True | Some m \<Rightarrow> m < next_id world2) (issues world2)
   \<and> issues_list_msg world2 = Some [50] \<and> 50 < next_id world2
   \<and> length (issues (snd (do_reindex lib0 world2))) = 2
   \<and> issues (snd (do_reindex lib0 world2)) ! 1 = (issue_no 1)\<lparr>message_id := Some 101\<rparr>
   \<and> message_id (issues (snd (do_reindex lib0 world2)) ! 1) \<noteq> message_id (issue_no 1)
   \<and> name (issues (snd (do_reindex lib0 world2)) ! 1) = name (issue_no 1)
   \<and> (\<exists>m\<in>set (channel (snd (do_reindex lib0 world2))). msg_id m = 101
        \<and> (\<exists>e. embeds m = [e] \<and> title e = name (issue_no 1)))"
proof -
  have s: "send_faults world2 = []" by (simp add: world2_def world0_def)
  have c: "\<forall>i\<in>set (issues world2). color i \<noteq> None"
    by (simp add: world2_def issue_no_fields)
  from do_reindex_succeeds[OF s c, of lib0] obtain w' where
    r: "do_reindex lib0 world2 = (Inr (), w')" by blast
  then have r': "do_reindex lib0 world2 = (Inr (), snd (do_reindex lib0 world2))" by simp
  have d: "distinct (map name (issues world2))" using issue_no_names by (simp add: world2_def)
  have o: "\<forall>i\<in>set (issues world2). \<forall>m. message_id i = Some m \<longrightarrow> m < next_id world2"
    by (simp add: world2_def world0_def issue_no_fields)
  have o': "list_all (\<lambda>i. case message_id i of None \<Rightarrow> True | Some m \<Rightarrow> m < next_id world2)
      (issues world2)"
    by (simp add: world2_def world0_def issue_no_fields)
  have i: "issues world2 = [issue_no 0, issue_no 1]" "next_id world2 = 100"
    and il: "issues_list_msg world2 = Some [50]"
    by (simp_all add: world2_def world0_def)
  have q: "\<forall>ids. issues_list_msg world2 = Some ids \<longrightarrow> (\<forall>m\<in>set ids. m < next_id world2)"
    unfolding il i by simp
  from do_reindex_renews_message_ids [OF r' d o q]
  have a: "length (issues (snd (do_reindex lib0 world2))) = length (issues world2)"
    and b: "\<forall>k<length (issues world2).
          issues (snd (do_reindex lib0 world2)) ! k
            = (issues world2 ! k)\<lparr>message_id := Some (next_id world2 + int k)\<rparr>
          \<and> message_id (issues (snd (do_reindex lib0 world2)) ! k) \<noteq> message_id (issues world2 ! k)
          \<and> name (issues (snd (do_reindex lib0 world2)) ! k) = name (issues world2 ! k)
          \<and> content (issues (snd (do_reindex lib0 world2)) ! k) = content (issues world2 ! k)
          \<and> color (issues (snd (do_reindex lib0 world2)) ! k) = color (issues world2 ! k)
          \<and> button_links (issues (snd (do_reindex lib0 world2)) ! k)
              = button_links (issues world2 ! k)
          \<and> (\<exists>m\<in>set (channel (snd (do_reindex lib0 world2))).
                Some (msg_id m) = message_id (issues (snd (do_reindex lib0 world2)) ! k)
                \<and> (\<exists>e. embeds m = [e] \<and> title e = name (issues world2 ! k)))"
    by blast+
  have "1 < length (issues world2)" unfolding i by simp
  with b have b1: "issues (snd (do_reindex lib0 world2)) ! 1
            = (issues world2 ! 1)\<lparr>message_id := Some (next_id world2 + int 1)\<rparr>
          \<and> message_id (issues (snd (do_reindex lib0 world2)) ! 1) \<noteq> message_id (issues world2 ! 1)
          \<and> name (issues (snd (do_reindex lib0 world2)) ! 1) = name (issues world2 ! 1)
          \<and> (\<exists>m\<in>set (channel (snd (do_reindex lib0 world2))).
                Some (msg_id m) = message_id (issues (snd (do_reindex lib0 world2)) ! 1)
                \<and> (\<exists>e. embeds m = [e] \<and> title e = name (issues world2 ! 1)))"
    by blast
  then have e1: "issues (snd (do_reindex lib0 world2)) ! 1 = (issue_no 1)\<lparr>message_id := Some 101\<rparr>"
    unfolding i by simp
  have "message_id (issues (snd (do_reindex lib0 world2)) ! 1) \<noteq> message_id (issue_no 1)"
    "name (issues (snd (do_reindex lib0 world2)) ! 1) = name (issue_no 1)"
    unfolding e1 by (simp_all add: issue_no_fields)
  moreover have "\<exists>m\<in>set (channel (snd (do_reindex lib0 world2))). msg_id m = 101
        \<and> (\<exists>e. embeds m = [e] \<and> title e = name (issue_no 1))"
    using b1 unfolding e1 i by simp
  moreover have "length (issues (snd (do_reindex lib0 world2))) = 2" using a unfolding i by simp
  moreover have "(50::int) < next_id world2" unfolding i by simp
  ultimately show ?thesis using r' d o' il e1 by blast
qed




end
